theory Spec2Isabelle
  imports Main
begin

section \<open>The postimg preview proxy: two route handlers\<close>

text \<open>
  The repository holds two versions of the route handler \<^verbatim>\<open>GET\<close> of
  \<^verbatim>\<open>/api/postimg\<close>: the strict one (\<^verbatim>\<open>src/app/api/postimg/route.ts\<close>, JSON errors,
  an 8 second timer, one fetch) and the always-an-image one
  (\<^verbatim>\<open>src/unnamed/part_000\<close>, SVG placeholders, a process-wide cache, two fetch
  attempts). Both share \<^verbatim>\<open>extractOgImage\<close> and \<^verbatim>\<open>isAbortLikeError\<close>.

  Strings are lists of 8-bit characters (code units below 256).
\<close>

subsection \<open>Strings\<close>

text \<open>\<^verbatim>\<open>String.prototype.toLowerCase\<close> on code units below 256: A-Z and the Latin-1
  capitals (all of 192..222 but the multiplication sign 215) move up by 32.\<close>

definition toLowerCase_char :: "char \<Rightarrow> char" where
  "toLowerCase_char c =
     (let n = (of_char c :: nat) in
      if (65 \<le> n \<and> n \<le> 90) \<or> (192 \<le> n \<and> n \<le> 222 \<and> n \<noteq> 215)
      then char_of (n + 32) else c)"

definition toLowerCase :: "string \<Rightarrow> string" where
  "toLowerCase s = map toLowerCase_char s"

text \<open>\<^verbatim>\<open>s.includes(sub)\<close>: \<open>sub\<close> occurs in \<open>s\<close> at some index.\<close>

fun js_includes :: "string \<Rightarrow> string \<Rightarrow> bool" where
  "js_includes [] sub = (sub = [])"
| "js_includes (x # xs) sub = (take (length sub) (x # xs) = sub \<or> js_includes xs sub)"

subsection \<open>Thrown values and \<^verbatim>\<open>isAbortLikeError\<close>\<close>

text \<open>A thrown value is falsy, or an object read through the four optional fields the
  source declares for it; \<open>None\<close> is an absent (undefined) field.\<close>

datatype js_cause = Cause (cause_code: "string option") (cause_name: "string option")
  (cause_message: "string option")

datatype js_error = Falsy
  | Err (err_name: "string option") (err_message: "string option") (err_code: "string option")
      (err_cause: "js_cause option")

text \<open>\<^verbatim>\<open>m?.toLowerCase().includes("aborted") === true\<close>\<close>

definition mentions_aborted :: "string option \<Rightarrow> bool" where
  "mentions_aborted m = (case m of None \<Rightarrow> False | Some s \<Rightarrow> js_includes (toLowerCase s) ''aborted'')"

text \<open>\<^verbatim>\<open>anyErr.cause?.f\<close>\<close>

definition via_cause :: "js_cause option \<Rightarrow> (js_cause \<Rightarrow> string option) \<Rightarrow> string option" where
  "via_cause c f = (case c of None \<Rightarrow> None | Some k \<Rightarrow> f k)"

fun isAbortLikeError :: "js_error \<Rightarrow> bool" where
  "isAbortLikeError Falsy = False"
| "isAbortLikeError (Err name message code cause) =
     (name = Some ''AbortError'' \<or>
      code = Some ''ECONNRESET'' \<or>
      code = Some ''UND_ERR_ABORTED'' \<or>
      mentions_aborted message \<or>
      via_cause cause cause_code = Some ''ECONNRESET'' \<or>
      via_cause cause cause_code = Some ''UND_ERR_ABORTED'' \<or>
      via_cause cause cause_name = Some ''AbortError'' \<or>
      mentions_aborted (via_cause cause cause_message))"

subsection \<open>The two regular expressions of \<^verbatim>\<open>extractOgImage\<close>\<close>

text \<open>
  Both patterns are sequences of four kinds of item: a run of literal characters, one
  character of a class, a greedy star of a class, and the capture group 1 holding a
  greedy plus of a class. The flag \<^verbatim>\<open>i\<close> compares characters after
  \<open>canonicalize\<close>, the upper-casing of the language standard for patterns without the
  \<^verbatim>\<open>u\<close> flag: a-z and the Latin-1 small letters move down by 32, code units 255
  and 181 have capitals beyond 255, everything else is kept.
\<close>

definition canonicalize :: "char \<Rightarrow> nat" where
  "canonicalize c =
     (let n = (of_char c :: nat) in
      if 97 \<le> n \<and> n \<le> 122 then n - 32
      else if 224 \<le> n \<and> n \<le> 254 \<and> n \<noteq> 247 then n - 32
      else if n = 255 then 376
      else if n = 181 then 924
      else n)"

datatype cls = OneOf "char list" | NoneOf "char list"

datatype atom = Lit string | Cls cls | Star cls | Group1Plus cls

fun in_cls :: "cls \<Rightarrow> char \<Rightarrow> bool" where
  "in_cls (OneOf cs) x = (canonicalize x \<in> set (map canonicalize cs))"
| "in_cls (NoneOf cs) x = (canonicalize x \<notin> set (map canonicalize cs))"

text \<open>The literal \<open>l\<close> read off the front of the input, ignoring case: what is left.\<close>

fun strip_lit :: "string \<Rightarrow> string \<Rightarrow> string option" where
  "strip_lit [] s = Some s"
| "strip_lit (c # cs) [] = None"
| "strip_lit (c # cs) (x # xs) =
     (if canonicalize x = canonicalize c then strip_lit cs xs else None)"

text \<open>
  The backtracking matcher, anchored at the front of the input. A greedy quantifier
  first tries one more character and falls back to the rest of the pattern when that
  fails. The result is \<open>None\<close> for no match and \<open>Some g\<close> for a match with group 1
  equal to \<open>g\<close> (\<open>None\<close>: undefined).
\<close>

function (sequential) rx_match :: "atom list \<Rightarrow> string \<Rightarrow> string option \<Rightarrow> string option option"
  and rx_group :: "cls \<Rightarrow> atom list \<Rightarrow> string \<Rightarrow> string \<Rightarrow> string option option"
where
  "rx_match [] s cap = Some cap"
| "rx_match (Lit l # ps) s cap =
     (case strip_lit l s of None \<Rightarrow> None | Some rest \<Rightarrow> rx_match ps rest cap)"
| "rx_match (Cls k # ps) [] cap = None"
| "rx_match (Cls k # ps) (x # xs) cap = (if in_cls k x then rx_match ps xs cap else None)"
| "rx_match (Star k # ps) [] cap = rx_match ps [] cap"
| "rx_match (Star k # ps) (x # xs) cap =
     (if in_cls k x
      then (case rx_match (Star k # ps) xs cap of
              Some r \<Rightarrow> Some r
            | None \<Rightarrow> rx_match ps (x # xs) cap)
      else rx_match ps (x # xs) cap)"
| "rx_match (Group1Plus k # ps) s cap = rx_group k ps [] s"
| "rx_group k ps acc [] = None"
| "rx_group k ps acc (x # xs) =
     (if in_cls k x
      then (case rx_group k ps (acc @ [x]) xs of
              Some r \<Rightarrow> Some r
            | None \<Rightarrow> rx_match ps xs (Some (acc @ [x])))
      else None)"
  by pat_completeness auto
termination
  by (relation "measures
        [(\<lambda>v. case v of Inl (ps, s, cap) \<Rightarrow> 2 * length ps | Inr (k, ps, acc, s) \<Rightarrow> 2 * length ps + 1),
         (\<lambda>v. case v of Inl (ps, s, cap) \<Rightarrow> length s | Inr (k, ps, acc, s) \<Rightarrow> length s)]")
     auto

text \<open>\<^verbatim>\<open>html.match(re)\<close> for a pattern without the \<^verbatim>\<open>g\<close> flag: the match at the
  leftmost index that has one.\<close>

fun rx_search :: "atom list \<Rightarrow> string \<Rightarrow> string option option" where
  "rx_search ps [] = rx_match ps [] None"
| "rx_search ps (x # xs) =
     (case rx_match ps (x # xs) None of Some g \<Rightarrow> Some g | None \<Rightarrow> rx_search ps xs)"

definition quotes :: "char list" where
  "quotes = [CHR 0x22, CHR 0x27]"

text \<open>\<^verbatim>\<open>/property=["']og:image["'][^>]*content=["']([^"']+)["']/i\<close>\<close>

definition re_property_content :: "atom list" where
  "re_property_content =
     [Lit ''property='', Cls (OneOf quotes), Lit ''og:image'', Cls (OneOf quotes),
      Star (NoneOf ''>''), Lit ''content='', Cls (OneOf quotes),
      Group1Plus (NoneOf quotes), Cls (OneOf quotes)]"

text \<open>\<^verbatim>\<open>/content=["']([^"']+)["'][^>]*property=["']og:image["']/i\<close>\<close>

definition re_content_property :: "atom list" where
  "re_content_property =
     [Lit ''content='', Cls (OneOf quotes), Group1Plus (NoneOf quotes), Cls (OneOf quotes),
      Star (NoneOf ''>''), Lit ''property='', Cls (OneOf quotes), Lit ''og:image'',
      Cls (OneOf quotes)]"

text \<open>\<^verbatim>\<open>const m = html.match(re1) ?? html.match(re2); return m?.[1] ?? null;\<close>\<close>

definition extractOgImage :: "string \<Rightarrow> string option" where
  "extractOgImage html =
     (let m = (case rx_search re_property_content html of
                 Some g \<Rightarrow> Some g
               | None \<Rightarrow> rx_search re_content_property html)
      in case m of None \<Rightarrow> None | Some g \<Rightarrow> g)"

subsection \<open>The platform and the world of one request\<close>

text \<open>
  The URL parser and the framework's redirect constructor are not code of this
  repository; the handlers take them as parameters. \<open>new_URL pf s = None\<close> stands for
  \<^verbatim>\<open>new URL(s)\<close> throwing; of a parsed URL the handlers read \<^verbatim>\<open>hostname\<close> and
  \<^verbatim>\<open>toString()\<close>. \<open>redirect_throws pf u = Some e\<close> stands for
  \<^verbatim>\<open>NextResponse.redirect(u, 302)\<close> throwing \<open>e\<close> (the framework refuses a string
  that is not an absolute URL).
\<close>

record url =
  hostname :: string
  href :: string

record platform =
  new_URL :: "string \<Rightarrow> url option"
  redirect_throws :: "string \<Rightarrow> js_error option"

text \<open>
  A response is written as the constructor call that makes it:
  \<^verbatim>\<open>NextResponse.json({error: e}, {status: n})\<close>, \<^verbatim>\<open>new NextResponse(null, {status: n})\<close>,
  \<^verbatim>\<open>NextResponse.redirect(u, n)\<close>, and \<^verbatim>\<open>new NextResponse(body, {status: n, headers})\<close>.
\<close>

datatype response =
    Json string nat
  | Null nat
  | Redirect string nat
  | Body string nat "(string \<times> string) list"

text \<open>What a call of a handler does: it returns a response, lets an exception
  escape, or never settles.\<close>

datatype result = Returns response | Escapes js_error | Pending

record outcome =
  result :: result
  finished_at :: nat
  fetch_calls :: nat

text \<open>
  Time is counted in milliseconds from the arrival of the request. A promise of the
  outside world either stays pending or settles after a delay, rejected or resolved.
  An upstream response carries \<^verbatim>\<open>res.ok\<close> and the promise of \<^verbatim>\<open>res.text()\<close>.
\<close>

datatype 'a settled = Rejects js_error | Resolves 'a

datatype 'a promise = Never | After nat "'a settled"

datatype upstream = Upstream bool "string promise"

text \<open>The inbound signal \<^verbatim>\<open>req.signal\<close>: aborted on arrival, firing its abort event
  later, or never.\<close>

datatype inbound = Aborted | AbortsAt nat | NotAborted

record request =
  url_param :: "string option"
  signal :: inbound
  fetch_env :: "string \<Rightarrow> nat \<Rightarrow> upstream promise"
  now_check :: int
  now_store :: int

text \<open>
  \<open>url_param\<close> is \<^verbatim>\<open>req.nextUrl.searchParams.get("url")\<close>; \<open>fetch_env r u n\<close> is what the
  \<open>n\<close>-th call \<^verbatim>\<open>fetch(u, ...)\<close> of the request does when nothing aborts it;
  \<open>now_check\<close> and \<open>now_store\<close> are the two readings of \<^verbatim>\<open>Date.now()\<close> (at the cache
  check and at \<^verbatim>\<open>cache.set\<close>).
\<close>

text \<open>The rejection of a fetch or a body read whose signal is aborted.\<close>

definition AbortError :: js_error where
  "AbortError = Err (Some ''AbortError'') (Some ''This operation was aborted'') None None"

text \<open>
  Awaiting, from time \<open>t\<close> on, a promise that was given the controller's signal, where
  the controller is aborted at time \<open>a\<close> (\<open>None\<close>: never). The abort wins when it
  comes no later than the settlement; a signal aborted before \<open>t\<close> rejects at once.
  \<open>None\<close> is an await that never resumes.
\<close>

fun await_abortable :: "nat \<Rightarrow> nat option \<Rightarrow> 'a promise \<Rightarrow> (nat \<times> 'a settled) option" where
  "await_abortable t None Never = None"
| "await_abortable t None (After d r) = Some (t + d, r)"
| "await_abortable t (Some a) Never = Some (max t a, Rejects AbortError)"
| "await_abortable t (Some a) (After d r) =
     (if a \<le> t + d then Some (max t a, Rejects AbortError) else Some (t + d, r))"

definition NextResponse_redirect :: "platform \<Rightarrow> string \<Rightarrow> js_error + response" where
  "NextResponse_redirect pf u =
     (case redirect_throws pf u of Some e \<Rightarrow> Inl e | None \<Rightarrow> Inr (Redirect u 302))"

definition returns_at :: "nat \<Rightarrow> nat \<Rightarrow> response \<Rightarrow> outcome" where
  "returns_at t n r = \<lparr>result = Returns r, finished_at = t, fetch_calls = n\<rparr>"

subsection \<open>The strict handler (\<^verbatim>\<open>src/app/api/postimg/route.ts\<close>)\<close>

text \<open>The \<^verbatim>\<open>try\<close> block of \<^verbatim>\<open>work\<close> (lines 72 to 98); \<open>Inl e\<close> is \<open>e\<close> thrown to the
  \<^verbatim>\<open>catch\<close> of line 99.\<close>

definition work_try ::
  "platform \<Rightarrow> request \<Rightarrow> url \<Rightarrow> nat option \<Rightarrow> (nat \<times> (js_error + response)) option" where
  "work_try pf req parsed ctl =
     (case await_abortable 0 ctl (fetch_env req (href parsed) 0) of
        None \<Rightarrow> None
      | Some (t, Rejects e) \<Rightarrow> Some (t, Inl e)
      | Some (t, Resolves (Upstream ok body)) \<Rightarrow>
          if \<not> ok then Some (t, Inr (Json ''Failed to fetch postimg page'' 502))
          else
            (case await_abortable t ctl body of
               None \<Rightarrow> None
             | Some (t', Rejects e) \<Rightarrow>
                 if isAbortLikeError e then Some (t', Inr (Null 204)) else Some (t', Inl e)
             | Some (t', Resolves html) \<Rightarrow>
                 (case extractOgImage html of
                    None \<Rightarrow> Some (t', Inr (Json ''No og:image found'' 404))
                  | Some img \<Rightarrow>
                      if img = [] then Some (t', Inr (Json ''No og:image found'' 404))
                      else Some (t', NextResponse_redirect pf img))))"

definition work :: "platform \<Rightarrow> request \<Rightarrow> url \<Rightarrow> nat option \<Rightarrow> (nat \<times> response) option" where
  "work pf req parsed ctl =
     (case work_try pf req parsed ctl of
        None \<Rightarrow> None
      | Some (t, Inr r) \<Rightarrow> Some (t, r)
      | Some (t, Inl e) \<Rightarrow>
          if isAbortLikeError e then Some (t, Null 204)
          else Some (t, Json ''Unexpected error fetching postimg'' 500))"

text \<open>
  Lines 53 to 110, after validation. The controller is aborted by the timer at 8000
  or, earlier, by \<^verbatim>\<open>abortTo204\<close> when the inbound signal fires;
  \<^verbatim>\<open>Promise.race\<close> answers with \<^verbatim>\<open>abortResponse\<close> when the inbound abort comes no
  later than the end of \<^verbatim>\<open>work\<close>.
\<close>

definition strict_pipeline :: "platform \<Rightarrow> request \<Rightarrow> url \<Rightarrow> outcome" where
  "strict_pipeline pf req parsed =
     (case signal req of
        Aborted \<Rightarrow> returns_at 0 0 (Null 204)
      | NotAborted \<Rightarrow>
          (case work pf req parsed (Some 8000) of
             None \<Rightarrow> \<lparr>result = Pending, finished_at = 0, fetch_calls = 1\<rparr>
           | Some (t, r) \<Rightarrow> returns_at t 1 r)
      | AbortsAt a \<Rightarrow>
          (case work pf req parsed (Some (min a 8000)) of
             None \<Rightarrow> returns_at a 1 (Null 204)
           | Some (t, r) \<Rightarrow> if a \<le> t then returns_at a 1 (Null 204) else returns_at t 1 r))"

text \<open>\<^verbatim>\<open>GET\<close>: validation (lines 33 to 51), then the pipeline.\<close>

definition GET_strict :: "platform \<Rightarrow> request \<Rightarrow> outcome" where
  "GET_strict pf req =
     (case url_param req of
        None \<Rightarrow> returns_at 0 0 (Json ''Missing url'' 400)
      | Some u \<Rightarrow>
          if u = [] then returns_at 0 0 (Json ''Missing url'' 400)
          else
            (case new_URL pf u of
               None \<Rightarrow> returns_at 0 0 (Json ''Invalid url'' 400)
             | Some parsed \<Rightarrow>
                 if hostname parsed \<noteq> ''postimg.cc''
                 then returns_at 0 0 (Json ''Only postimg.cc is allowed'' 400)
                 else strict_pipeline pf req parsed))"

subsection \<open>The always-an-image handler (\<^verbatim>\<open>src/unnamed/part_000\<close>)\<close>

record CacheEntry =
  img :: string
  ts :: int

type_synonym cache = "string \<Rightarrow> CacheEntry option"

definition CACHE_TTL_MS :: int where
  "CACHE_TTL_MS = 1000 * 60 * 60 * 24"

definition svgPlaceholder :: "string \<Rightarrow> string" where
  \<open>svgPlaceholder label =
     ''<?xml version="1.0" encoding="UTF-8"?>'' @ [CHR 0x0A] @
     ''<svg xmlns="http://www.w3.org/2000/svg" width="1200" height="700">'' @ [CHR 0x0A] @
     ''  <rect width="100%" height="100%" fill="#0b1220"/>'' @ [CHR 0x0A] @
     ''  <text x="50%" y="50%" fill="#67e8f9" font-family="Arial" font-size="28" text-anchor="middle">''
       @ label @ ''</text>'' @ [CHR 0x0A] @
     ''</svg>''\<close>

definition imageFallbackResponse :: "string \<Rightarrow> response" where
  "imageFallbackResponse label =
     Body (svgPlaceholder label) 200
       [(''content-type'', ''image/svg+xml; charset=utf-8''),
        (''cache-control'', ''public, max-age=300'')]"

text \<open>The inner \<^verbatim>\<open>try\<close> block of the loop (lines 92 to 100): \<open>Inr html\<close> is a
  \<^verbatim>\<open>break\<close> with that value of \<^verbatim>\<open>html\<close> (\<open>None\<close>: still null), \<open>Inl e\<close> is \<open>e\<close>
  thrown to the \<^verbatim>\<open>catch\<close> of line 101.\<close>

definition attempt_try ::
  "request \<Rightarrow> string \<Rightarrow> nat option \<Rightarrow> nat \<Rightarrow> nat \<Rightarrow> (nat \<times> (js_error + string option)) option" where
  "attempt_try req u ctl attempt t =
     (case await_abortable t ctl (fetch_env req u attempt) of
        None \<Rightarrow> None
      | Some (t1, Rejects e) \<Rightarrow> Some (t1, Inl e)
      | Some (t1, Resolves (Upstream ok body)) \<Rightarrow>
          if \<not> ok then Some (t1, Inr None)
          else
            (case await_abortable t1 ctl body of
               None \<Rightarrow> None
             | Some (t2, Rejects e) \<Rightarrow> Some (t2, Inl e)
             | Some (t2, Resolves html) \<Rightarrow> Some (t2, Inr (Some html))))"

text \<open>How the \<^verbatim>\<open>for\<close> loop is left: by a \<^verbatim>\<open>return\<close>, by a \<^verbatim>\<open>throw\<close>, with a value
  of \<^verbatim>\<open>html\<close>, or never.\<close>

datatype loop_exit = LoopReturn response | LoopThrow js_error | LoopDone "string option" | LoopHangs

text \<open>The loop from \<open>attempt\<close> on, entered at time \<open>t\<close>: the time it is left, the
  number of \<^verbatim>\<open>fetch\<close> calls made by then, and how it is left.\<close>

function attempts :: "request \<Rightarrow> string \<Rightarrow> nat option \<Rightarrow> nat \<Rightarrow> nat \<Rightarrow> nat \<times> nat \<times> loop_exit" where
  "attempts req u ctl attempt t =
     (if attempt < 2 then
        (case attempt_try req u ctl attempt t of
           None \<Rightarrow> (t, attempt + 1, LoopHangs)
         | Some (t', Inr html) \<Rightarrow> (t', attempt + 1, LoopDone html)
         | Some (t', Inl e) \<Rightarrow>
             if isAbortLikeError e
             then (t', attempt + 1, LoopReturn (imageFallbackResponse ''Image request cancelled''))
             else if attempt = 1 then (t', attempt + 1, LoopThrow e)
             else attempts req u ctl (attempt + 1) (t' + 150))
      else (t, attempt, LoopDone None))"
  by pat_completeness auto
termination
  by (relation "measure (\<lambda>(req, u, ctl, attempt, t). 2 - attempt)") auto

text \<open>The outer \<^verbatim>\<open>try\<close> block (lines 86 to 116) with the cache it leaves; \<open>Inl e\<close> is
  \<open>e\<close> thrown to the \<^verbatim>\<open>catch\<close> of line 117, \<open>None\<close> a block that never ends.\<close>

definition resolve_try ::
  "platform \<Rightarrow> request \<Rightarrow> string \<Rightarrow> cache \<Rightarrow> nat \<times> nat \<times> (js_error + response) option \<times> cache" where
  "resolve_try pf req u c =
     (if signal req = Aborted
      then (0, 0, Some (Inr (imageFallbackResponse ''Image request cancelled'')), c)
      else
        (case attempts req u (case signal req of AbortsAt a \<Rightarrow> Some a | _ \<Rightarrow> None) 0 0 of
           (t, n, LoopHangs) \<Rightarrow> (t, n, None, c)
         | (t, n, LoopReturn r) \<Rightarrow> (t, n, Some (Inr r), c)
         | (t, n, LoopThrow e) \<Rightarrow> (t, n, Some (Inl e), c)
         | (t, n, LoopDone None) \<Rightarrow>
             (t, n, Some (Inr (imageFallbackResponse ''Preview unavailable'')), c)
         | (t, n, LoopDone (Some html)) \<Rightarrow>
             if html = [] then (t, n, Some (Inr (imageFallbackResponse ''Preview unavailable'')), c)
             else
               (case extractOgImage html of
                  None \<Rightarrow> (t, n, Some (Inr (imageFallbackResponse ''Preview unavailable'')), c)
                | Some i \<Rightarrow>
                    if i = []
                    then (t, n, Some (Inr (imageFallbackResponse ''Preview unavailable'')), c)
                    else (t, n, Some (NextResponse_redirect pf i),
                          c(u \<mapsto> \<lparr>img = i, ts = now_store req\<rparr>)))))"

text \<open>\<^verbatim>\<open>cached && Date.now() - cached.ts < CACHE_TTL_MS\<close>: the entry the check of
  line 77 lets through.\<close>

definition cache_hit :: "request \<Rightarrow> cache \<Rightarrow> string \<Rightarrow> CacheEntry option" where
  "cache_hit req c key =
     (case c key of
        None \<Rightarrow> None
      | Some cached \<Rightarrow> if now_check req - ts cached < CACHE_TTL_MS then Some cached else None)"

text \<open>Lines 75 to 122, after validation: the cache check, then the outer
  \<^verbatim>\<open>try\<close> with its \<^verbatim>\<open>catch\<close>. The redirect of a cache hit (line 78) is built
  outside the \<^verbatim>\<open>try\<close>.\<close>

definition image_pipeline :: "platform \<Rightarrow> request \<Rightarrow> url \<Rightarrow> cache \<Rightarrow> outcome \<times> cache" where
  "image_pipeline pf req parsed c =
     (case cache_hit req c (href parsed) of
        Some cached \<Rightarrow>
          (case NextResponse_redirect pf (img cached) of
             Inr r \<Rightarrow> (returns_at 0 0 r, c)
           | Inl e \<Rightarrow> (\<lparr>result = Escapes e, finished_at = 0, fetch_calls = 0\<rparr>, c))
      | None \<Rightarrow>
          (case resolve_try pf req (href parsed) c of
             (t, n, None, c') \<Rightarrow> (\<lparr>result = Pending, finished_at = t, fetch_calls = n\<rparr>, c')
           | (t, n, Some (Inr r), c') \<Rightarrow> (returns_at t n r, c')
           | (t, n, Some (Inl e), c') \<Rightarrow>
               if isAbortLikeError e
               then (returns_at t n (imageFallbackResponse ''Image request cancelled''), c')
               else (returns_at t n (imageFallbackResponse ''Preview unavailable''), c')))"

text \<open>\<^verbatim>\<open>GET\<close>, from the process-wide cache \<open>c\<close> to the outcome and the cache it
  leaves: validation (lines 61 to 73), then the pipeline. One request runs at a time:
  no other request writes the cache between the lookup and \<^verbatim>\<open>cache.set\<close>.\<close>

definition GET_image :: "platform \<Rightarrow> request \<Rightarrow> cache \<Rightarrow> outcome \<times> cache" where
  "GET_image pf req c =
     (case url_param req of
        None \<Rightarrow> (returns_at 0 0 (imageFallbackResponse ''Missing image url''), c)
      | Some u \<Rightarrow>
          if u = [] then (returns_at 0 0 (imageFallbackResponse ''Missing image url''), c)
          else
            (case new_URL pf u of
               None \<Rightarrow> (returns_at 0 0 (imageFallbackResponse ''Invalid image url''), c)
             | Some parsed \<Rightarrow>
                 if hostname parsed \<noteq> ''postimg.cc''
                 then (returns_at 0 0 (imageFallbackResponse ''Only postimg.cc is allowed''), c)
                 else image_pipeline pf req parsed c))"

subsection \<open>Requests that pass validation\<close>

text \<open>The request carries a non-empty \<^verbatim>\<open>url\<close> that parses to \<open>parsed\<close>, on the
  allowed host: the handlers go past line 51 (strict) and line 73 (always-an-image).\<close>

definition accepted :: "platform \<Rightarrow> request \<Rightarrow> url \<Rightarrow> bool" where
  "accepted pf req parsed =
     (case url_param req of
        None \<Rightarrow> False
      | Some u \<Rightarrow> u \<noteq> [] \<and> new_URL pf u = Some parsed \<and> hostname parsed = ''postimg.cc'')"

definition cancelled :: response where
  "cancelled = imageFallbackResponse ''Image request cancelled''"

definition unavailable :: response where
  "unavailable = imageFallbackResponse ''Preview unavailable''"

subsection \<open>A concrete platform for the examples\<close>

text \<open>A URL parser for strings of the shape \<^verbatim>\<open>https://host/path\<close>, which it leaves as
  they are, and a redirect constructor that refuses what the parser refuses, with the
  framework's message.\<close>

definition demo_new_URL :: "string \<Rightarrow> url option" where
  "demo_new_URL s =
     (if take 8 s = ''https://'' \<and> 8 < length s
      then Some \<lparr>hostname = takeWhile (\<lambda>c. c \<noteq> CHR ''/'') (drop 8 s), href = s\<rparr>
      else None)"

definition malformed :: "string \<Rightarrow> js_error" where
  \<open>malformed u =
     Err (Some ''Error'')
       (Some (''URL is malformed "'' @ u @
          ''". Please use only absolute URLs - https://nextjs.org/docs/messages/middleware-relative-urls''))
       None
       (Some (Cause (Some ''ERR_INVALID_URL'') (Some ''TypeError'') (Some ''Invalid URL'')))\<close>

definition demo_platform :: platform where
  "demo_platform =
     \<lparr>new_URL = demo_new_URL,
      redirect_throws = (\<lambda>u. if demo_new_URL u = None then Some (malformed u) else None)\<rparr>"

text \<open>A request for \<open>u\<close> whose signal never fires and whose fetches never settle.\<close>

definition quiet_request :: "string option \<Rightarrow> request" where
  "quiet_request u =
     \<lparr>url_param = u, signal = NotAborted, fetch_env = (\<lambda>_ _. Never),
      now_check = 0, now_store = 0\<rparr>"

subsection \<open>Words of the specification\<close>

text \<open>A string \<open>w\<close> is \<open>v\<close> in some letter case: each character is the one of \<open>v\<close> or,
  where that one is a small ASCII letter, its capital.\<close>

definition capital_of :: "char \<Rightarrow> char \<Rightarrow> bool" where
  "capital_of x y =
     (97 \<le> (of_char y :: nat) \<and> (of_char y :: nat) \<le> 122 \<and> (of_char x :: nat) + 32 = of_char y)"

definition in_any_case :: "string \<Rightarrow> string \<Rightarrow> bool" where
  "in_any_case w v = list_all2 (\<lambda>x y. x = y \<or> capital_of x y) w v"

text \<open>Two strings that the flag \<^verbatim>\<open>i\<close> does not tell apart.\<close>

definition same_ignoring_case :: "string \<Rightarrow> string \<Rightarrow> bool" where
  "same_ignoring_case u l = (map canonicalize u = map canonicalize l)"

text \<open>
  What a pattern matches, said without an algorithm: \<open>accepts ps s cap g\<close> holds when
  some prefix of \<open>s\<close> can be cut into pieces for the items of \<open>ps\<close>, and \<open>g\<close> is
  group 1 at the end (\<open>cap\<close> at the start).
\<close>

fun accepts :: "atom list \<Rightarrow> string \<Rightarrow> string option \<Rightarrow> string option \<Rightarrow> bool" where
  "accepts [] s cap g = (g = cap)"
| "accepts (Lit l # ps) s cap g =
     (\<exists>u v. s = u @ v \<and> same_ignoring_case u l \<and> accepts ps v cap g)"
| "accepts (Cls k # ps) s cap g = (\<exists>x v. s = x # v \<and> in_cls k x \<and> accepts ps v cap g)"
| "accepts (Star k # ps) s cap g =
     (\<exists>u v. s = u @ v \<and> (\<forall>x\<in>set u. in_cls k x) \<and> accepts ps v cap g)"
| "accepts (Group1Plus k # ps) s cap g =
     (\<exists>u v. s = u @ v \<and> u \<noteq> [] \<and> (\<forall>x\<in>set u. in_cls k x) \<and> accepts ps v (Some u) g)"

definition quote :: "char \<Rightarrow> bool" where
  "quote q = (q = CHR 0x22 \<or> q = CHR 0x27)"

text \<open>
  An og:image pattern of the markup \<open>html\<close> with the property first: it starts at
  index \<open>n\<close>, has a gap of \<open>m\<close> characters and the content \<open>X\<close> when, from index \<open>n\<close>
  on, the markup reads \<^verbatim>\<open>property=\<close>, a quote, \<^verbatim>\<open>og:image\<close>, a quote, \<open>m\<close> characters
  none of which is \<^verbatim>\<open>>\<close>, \<^verbatim>\<open>content=\<close>, a quote, \<open>X\<close>, a quote. The letters are in any
  case. Each of the four quotes is a single or a double one, whatever the other three
  are. \<open>X\<close> is not empty and holds no quote of either kind. Nothing is asked of what
  stands before or after: no \<^verbatim>\<open><meta\<close>, no end of the tag.
\<close>

definition property_first_at :: "string \<Rightarrow> nat \<Rightarrow> nat \<Rightarrow> string \<Rightarrow> bool" where
  "property_first_at html n m X =
     (\<exists>pre p q1 og q2 mid ct q3 q4 post.
        html = pre @ p @ [q1] @ og @ [q2] @ mid @ ct @ [q3] @ X @ [q4] @ post \<and>
        length pre = n \<and> length mid = m \<and>
        same_ignoring_case p ''property='' \<and> quote q1 \<and>
        same_ignoring_case og ''og:image'' \<and> quote q2 \<and>
        CHR ''>'' \<notin> set mid \<and>
        same_ignoring_case ct ''content='' \<and> quote q3 \<and>
        X \<noteq> [] \<and> (\<forall>x\<in>set X. \<not> quote x) \<and> quote q4)"

text \<open>
  The same with the content first: from index \<open>n\<close> on, \<^verbatim>\<open>content=\<close>, a quote, \<open>X\<close>, a
  quote, any characters other than \<^verbatim>\<open>>\<close>, \<^verbatim>\<open>property=\<close>, a quote, \<^verbatim>\<open>og:image\<close>, a quote.
\<close>

definition content_first_at :: "string \<Rightarrow> nat \<Rightarrow> string \<Rightarrow> bool" where
  "content_first_at html n X =
     (\<exists>pre ct q3 q4 mid p q1 og q2 post.
        html = pre @ ct @ [q3] @ X @ [q4] @ mid @ p @ [q1] @ og @ [q2] @ post \<and>
        length pre = n \<and>
        same_ignoring_case ct ''content='' \<and> quote q3 \<and>
        X \<noteq> [] \<and> (\<forall>x\<in>set X. \<not> quote x) \<and> quote q4 \<and>
        CHR ''>'' \<notin> set mid \<and>
        same_ignoring_case p ''property='' \<and> quote q1 \<and>
        same_ignoring_case og ''og:image'' \<and> quote q2)"

text \<open>The markup holds an og:image pattern with the content \<open>X\<close>, somewhere, in either
  order of the attributes.\<close>

definition og_image_pattern :: "string \<Rightarrow> string \<Rightarrow> bool" where
  "og_image_pattern html X =
     ((\<exists>n m. property_first_at html n m X) \<or> (\<exists>n. content_first_at html n X))"

text \<open>
  \<open>X\<close> is the content of the pattern that is preferred to all others: of the patterns
  with the property first, the one that starts at the least index and, of those that
  start there, has the longest gap; when no pattern has the property first, the
  pattern with the content first that starts at the least index.
\<close>

definition og_image_selected :: "string \<Rightarrow> string \<Rightarrow> bool" where
  "og_image_selected html X =
     ((\<exists>n m. property_first_at html n m X \<and>
          (\<forall>n' m' X'. property_first_at html n' m' X' \<longrightarrow> n < n' \<or> (n' = n \<and> m' \<le> m))) \<or>
      ((\<forall>n m X'. \<not> property_first_at html n m X') \<and>
       (\<exists>n. content_first_at html n X \<and> (\<forall>n' X'. content_first_at html n' X' \<longrightarrow> n \<le> n'))))"

text \<open>The inbound signal has not fired by time \<open>t\<close>.\<close>

definition not_aborted_by :: "request \<Rightarrow> nat \<Rightarrow> bool" where
  "not_aborted_by req t =
     (case signal req of Aborted \<Rightarrow> False | AbortsAt a \<Rightarrow> t < a | NotAborted \<Rightarrow> True)"

text \<open>The time at which the strict handler's cancellation scope fires: the inbound abort
  or the 8 second timer, whichever is first.\<close>

definition deadline :: "request \<Rightarrow> nat" where
  "deadline req =
     (case signal req of Aborted \<Rightarrow> 0 | AbortsAt a \<Rightarrow> min a 8000 | NotAborted \<Rightarrow> 8000)"

subsection \<open>Sample requests\<close>

definition postimg_url :: string where
  "postimg_url = ''https://postimg.cc/abc123''"

definition postimg_parsed :: url where
  "postimg_parsed = \<lparr>hostname = ''postimg.cc'', href = postimg_url\<rparr>"

text \<open>A request for \<open>postimg_url\<close> whose \<open>n\<close>-th fetch does \<open>f n\<close>, arriving at \<open>now\<close>.\<close>

definition sample_request :: "inbound \<Rightarrow> (nat \<Rightarrow> upstream promise) \<Rightarrow> int \<Rightarrow> request" where
  "sample_request s f now =
     \<lparr>url_param = Some postimg_url, signal = s, fetch_env = (\<lambda>u n. f n),
      now_check = now, now_store = now + 1\<rparr>"

text \<open>A fetch that answers 200 after \<open>d\<close> ms, its body \<open>html\<close> read in 5 ms more.\<close>

definition page :: "nat \<Rightarrow> string \<Rightarrow> upstream promise" where
  "page d html = After d (Resolves (Upstream True (After 5 (Resolves html))))"

definition x_jpg :: string where
  "x_jpg = ''https://i.postimg.cc/abc123/x.jpg''"

definition one_og_tag :: string where
  \<open>one_og_tag = ''<meta property="og:image" content="https://i.postimg.cc/abc123/x.jpg">''\<close>

definition two_og_tags :: string where
  \<open>two_og_tags =
     ''<meta property="og:image" content="A.jpg"><meta property="og:image" content="B.jpg">''\<close>

definition relative_og_tag :: string where
  \<open>relative_og_tag = ''<meta property="og:image" content="/x.png">''\<close>

text \<open>A network failure that is no cancellation, and a fetch that fails so once.\<close>

definition transient :: js_error where
  "transient =
     Err (Some ''TypeError'') (Some ''fetch failed'') None
       (Some (Cause (Some ''ENOTFOUND'') (Some ''Error'')
          (Some ''getaddrinfo ENOTFOUND postimg.cc'')))"

definition flaky :: "nat \<Rightarrow> upstream promise" where
  "flaky n = (if n = 0 then After 30 (Rejects transient) else page 40 one_og_tag)"

section \<open>Strings and the classification of errors\<close>

lemma take_is_front: "take (length sub) s = sub \<longleftrightarrow> (\<exists>post. s = sub @ post)"
proof
  assume "take (length sub) s = sub"
  then have "s = sub @ drop (length sub) s"
    by (metis append_take_drop_id)
  then show "\<exists>post. s = sub @ post" ..
next
  assume "\<exists>post. s = sub @ post"
  then show "take (length sub) s = sub" by auto
qed

lemma js_includes_iff: "js_includes s sub \<longleftrightarrow> (\<exists>pre post. s = pre @ sub @ post)"
proof (induction s)
  case Nil
  then show ?case by auto
next
  case (Cons x xs)
  show ?case
  proof
    assume "js_includes (x # xs) sub"
    then consider "take (length sub) (x # xs) = sub" | "js_includes xs sub" by auto
    then show "\<exists>pre post. x # xs = pre @ sub @ post"
    proof cases
      case 1
      then obtain post where "x # xs = sub @ post" using take_is_front by blast
      then have "x # xs = [] @ sub @ post" by simp
      then show ?thesis by blast
    next
      case 2
      then obtain pre post where "xs = pre @ sub @ post" using Cons.IH by blast
      then have "x # xs = (x # pre) @ sub @ post" by simp
      then show ?thesis by blast
    qed
  next
    assume "\<exists>pre post. x # xs = pre @ sub @ post"
    then obtain pre post where h: "x # xs = pre @ sub @ post" by blast
    show "js_includes (x # xs) sub"
    proof (cases pre)
      case Nil
      with h have "take (length sub) (x # xs) = sub" using take_is_front by auto
      then show ?thesis by simp
    next
      case (Cons p ps)
      with h have "xs = ps @ sub @ post" by simp
      then have "js_includes xs sub" using Cons.IH by blast
      then show ?thesis by simp
    qed
  qed
qed

lemma toLowerCase_char_small:
  "97 \<le> (of_char y :: nat) \<Longrightarrow> (of_char y :: nat) \<le> 122 \<Longrightarrow> toLowerCase_char y = y"
  by (simp add: toLowerCase_char_def Let_def)

lemma toLowerCase_char_capital: "capital_of x y \<Longrightarrow> toLowerCase_char x = y"
proof -
  assume c: "capital_of x y"
  then have r: "65 \<le> (of_char x :: nat)" "(of_char x :: nat) \<le> 90"
    and e: "(of_char x :: nat) + 32 = of_char y"
    by (auto simp: capital_of_def)
  have "toLowerCase_char x = char_of ((of_char x :: nat) + 32)"
    using r by (simp add: toLowerCase_char_def Let_def)
  also have "\<dots> = char_of (of_char y :: nat)" using e by simp
  also have "\<dots> = y" by simp
  finally show ?thesis .
qed

lemma toLowerCase_any_case:
  "in_any_case w v \<Longrightarrow> \<forall>y\<in>set v. 97 \<le> (of_char y :: nat) \<and> (of_char y :: nat) \<le> 122 \<Longrightarrow>
     toLowerCase w = v"
  unfolding in_any_case_def toLowerCase_def
proof (induction w v rule: list_all2_induct)
  case Nil
  show ?case by simp
next
  case (Cons x xs y ys)
  have "toLowerCase_char x = y"
  proof (cases "x = y")
    case True
    with Cons.prems show ?thesis by (simp add: toLowerCase_char_small)
  next
    case False
    with Cons.hyps(1) have "capital_of x y" by simp
    then show ?thesis by (rule toLowerCase_char_capital)
  qed
  moreover have "map toLowerCase_char xs = ys"
    using Cons.IH Cons.prems by simp
  ultimately show ?case by simp
qed

lemma toLowerCase_append: "toLowerCase (a @ b) = toLowerCase a @ toLowerCase b"
  by (simp add: toLowerCase_def)

lemma mentions_aborted_any_case:
  assumes "in_any_case w ''aborted''"
  shows "mentions_aborted (Some (pre @ w @ post))"
proof -
  have "toLowerCase w = ''aborted''"
    using assms by (rule toLowerCase_any_case) simp
  then have "toLowerCase (pre @ w @ post) = toLowerCase pre @ ''aborted'' @ toLowerCase post"
    by (simp add: toLowerCase_append)
  then have "js_includes (toLowerCase (pre @ w @ post)) ''aborted''"
    unfolding js_includes_iff by blast
  then show ?thesis by (simp add: mentions_aborted_def)
qed

lemma isAbortLikeError_AbortError: "isAbortLikeError AbortError"
  by (simp add: AbortError_def)

section \<open>The matcher against what a pattern accepts\<close>

lemma strip_lit_iff:
  "strip_lit l s = Some rest \<longleftrightarrow> (\<exists>u. s = u @ rest \<and> same_ignoring_case u l)"
proof (induction l s rule: strip_lit.induct)
  case (1 s)
  show ?case by (auto simp: same_ignoring_case_def)
next
  case (2 c cs)
  show ?case by (auto simp: same_ignoring_case_def)
next
  case (3 c cs x xs)
  show ?case
  proof (cases "canonicalize x = canonicalize c")
    case True
    have "(\<exists>u. x # xs = u @ rest \<and> same_ignoring_case u (c # cs)) \<longleftrightarrow>
          (\<exists>u'. xs = u' @ rest \<and> same_ignoring_case u' cs)"
    proof
      assume "\<exists>u. x # xs = u @ rest \<and> same_ignoring_case u (c # cs)"
      then obtain u where u: "x # xs = u @ rest" "same_ignoring_case u (c # cs)" by blast
      then obtain y u' where "u = y # u'" by (cases u) (auto simp: same_ignoring_case_def)
      with u show "\<exists>u'. xs = u' @ rest \<and> same_ignoring_case u' cs"
        by (auto simp: same_ignoring_case_def)
    next
      assume "\<exists>u'. xs = u' @ rest \<and> same_ignoring_case u' cs"
      then obtain u' where "xs = u' @ rest" "same_ignoring_case u' cs" by blast
      then have "x # xs = (x # u') @ rest \<and> same_ignoring_case (x # u') (c # cs)"
        using True by (simp add: same_ignoring_case_def)
      then show "\<exists>u. x # xs = u @ rest \<and> same_ignoring_case u (c # cs)" by blast
    qed
    then show ?thesis using 3 True by simp
  next
    case False
    have "\<not> (\<exists>u. x # xs = u @ rest \<and> same_ignoring_case u (c # cs))"
    proof
      assume "\<exists>u. x # xs = u @ rest \<and> same_ignoring_case u (c # cs)"
      then obtain u where u: "x # xs = u @ rest" "same_ignoring_case u (c # cs)" by blast
      then obtain y u' where "u = y # u'" by (cases u) (auto simp: same_ignoring_case_def)
      with u False show False by (auto simp: same_ignoring_case_def)
    qed
    then show ?thesis using False by simp
  qed
qed

lemma accepts_Lit:
  "s = u @ v \<Longrightarrow> same_ignoring_case u l \<Longrightarrow> accepts ps v cap g \<Longrightarrow> accepts (Lit l # ps) s cap g"
  by auto

lemma accepts_Cls:
  "in_cls k x \<Longrightarrow> accepts ps v cap g \<Longrightarrow> accepts (Cls k # ps) (x # v) cap g"
  by auto

lemma accepts_Star:
  "s = u @ v \<Longrightarrow> \<forall>x\<in>set u. in_cls k x \<Longrightarrow> accepts ps v cap g \<Longrightarrow> accepts (Star k # ps) s cap g"
  by auto

lemma accepts_Group:
  "s = u @ v \<Longrightarrow> u \<noteq> [] \<Longrightarrow> \<forall>x\<in>set u. in_cls k x \<Longrightarrow> accepts ps v (Some u) g \<Longrightarrow>
     accepts (Group1Plus k # ps) s cap g"
  by auto

lemma accepts_Star_none: "accepts ps s cap g \<Longrightarrow> accepts (Star k # ps) s cap g"
  using accepts_Star [of s "[]" s k ps cap g] by simp

lemma accepts_Star_more:
  assumes "in_cls k x" and "accepts (Star k # ps) xs cap g"
  shows "accepts (Star k # ps) (x # xs) cap g"
proof -
  obtain u v where uv: "xs = u @ v" "\<forall>y\<in>set u. in_cls k y" "accepts ps v cap g"
    using assms(2) by auto
  have "x # xs = (x # u) @ v" using uv(1) by simp
  moreover have "\<forall>y\<in>set (x # u). in_cls k y" using uv(2) assms(1) by simp
  ultimately show ?thesis using uv(3) by (rule accepts_Star)
qed

lemma accepts_Star_split:
  "accepts (Star k # ps) s cap g \<Longrightarrow>
     \<exists>u v. s = u @ v \<and> (\<forall>x\<in>set u. in_cls k x) \<and> accepts ps v cap g"
  by simp

lemma accepts_Lit_split:
  "accepts (Lit l # ps) s cap g \<Longrightarrow>
     \<exists>u v. s = u @ v \<and> same_ignoring_case u l \<and> accepts ps v cap g"
  by simp

lemma accepts_Group_split:
  "accepts (Group1Plus k # ps) s cap g \<Longrightarrow>
     \<exists>u v. s = u @ v \<and> u \<noteq> [] \<and> (\<forall>x\<in>set u. in_cls k x) \<and> accepts ps v (Some u) g"
  by simp

lemma rx_sound:
  "(rx_match ps s cap = Some g \<longrightarrow> accepts ps s cap g)"
  "(rx_group k ps acc s = Some g \<longrightarrow>
      (\<exists>u v. s = u @ v \<and> u \<noteq> [] \<and> (\<forall>x\<in>set u. in_cls k x) \<and> accepts ps v (Some (acc @ u)) g))"
proof (induction ps s cap and k ps acc s rule: rx_match_rx_group.induct)
  case (1 s cap)
  show ?case by simp
next
  case (2 l ps s cap)
  show ?case
  proof
    assume h: "rx_match (Lit l # ps) s cap = Some g"
    then obtain rest where r: "strip_lit l s = Some rest" and m: "rx_match ps rest cap = Some g"
      by (cases "strip_lit l s") simp_all
    from r obtain u where "s = u @ rest" "same_ignoring_case u l"
      using strip_lit_iff by blast
    moreover have "accepts ps rest cap g" using 2 r m by simp
    ultimately show "accepts (Lit l # ps) s cap g" by (rule accepts_Lit)
  qed
next
  case (3 k ps cap)
  show ?case by simp
next
  case (4 k ps x xs cap)
  show ?case
  proof
    assume h: "rx_match (Cls k # ps) (x # xs) cap = Some g"
    then have inx: "in_cls k x" by (cases "in_cls k x") simp_all
    then have "rx_match ps xs cap = Some g" using h by simp
    then have "accepts ps xs cap g" using 4 inx by simp
    with inx show "accepts (Cls k # ps) (x # xs) cap g" by (rule accepts_Cls)
  qed
next
  case (5 k ps cap)
  show ?case
  proof
    assume "rx_match (Star k # ps) [] cap = Some g"
    then have "accepts ps [] cap g" using 5 by simp
    then show "accepts (Star k # ps) [] cap g" by (rule accepts_Star_none)
  qed
next
  case (6 k ps x xs cap)
  show ?case
  proof
    assume h: "rx_match (Star k # ps) (x # xs) cap = Some g"
    show "accepts (Star k # ps) (x # xs) cap g"
    proof (cases "in_cls k x \<and> rx_match (Star k # ps) xs cap \<noteq> None")
      case True
      then have inx: "in_cls k x" and "rx_match (Star k # ps) xs cap = Some g"
        using h by auto
      then have "accepts (Star k # ps) xs cap g" using 6(1) by simp
      with inx show ?thesis by (rule accepts_Star_more)
    next
      case False
      then have m: "rx_match ps (x # xs) cap = Some g"
        using h by (cases "in_cls k x") auto
      have "accepts ps (x # xs) cap g"
      proof (cases "in_cls k x")
        case True
        then have "rx_match (Star k # ps) xs cap = None" using False by simp
        then show ?thesis using 6(2) True m by simp
      next
        case False
        then show ?thesis using 6(3) m by simp
      qed
      then show ?thesis by (rule accepts_Star_none)
    qed
  qed
next
  case (7 k ps s cap)
  show ?case
  proof
    assume "rx_match (Group1Plus k # ps) s cap = Some g"
    then have "rx_group k ps [] s = Some g" by simp
    then obtain u v where "s = u @ v" "u \<noteq> []" "\<forall>x\<in>set u. in_cls k x"
      "accepts ps v (Some ([] @ u)) g"
      using 7 by blast
    then show "accepts (Group1Plus k # ps) s cap g"
      using accepts_Group [of s u v k ps g cap] by simp
  qed
next
  case (8 k ps acc)
  show ?case by simp
next
  case (9 k ps acc x xs)
  show ?case
  proof
    assume h: "rx_group k ps acc (x # xs) = Some g"
    then have inx: "in_cls k x" by (cases "in_cls k x") simp_all
    show "\<exists>u v. x # xs = u @ v \<and> u \<noteq> [] \<and> (\<forall>y\<in>set u. in_cls k y) \<and>
        accepts ps v (Some (acc @ u)) g"
    proof (cases "rx_group k ps (acc @ [x]) xs")
      case (Some r)
      then have "rx_group k ps (acc @ [x]) xs = Some g" using h inx by simp
      then obtain u v where "xs = u @ v" "\<forall>y\<in>set u. in_cls k y"
        "accepts ps v (Some ((acc @ [x]) @ u)) g"
        using 9(1) inx by blast
      then have "x # xs = (x # u) @ v \<and> x # u \<noteq> [] \<and> (\<forall>y\<in>set (x # u). in_cls k y) \<and>
          accepts ps v (Some (acc @ (x # u))) g"
        using inx by simp
      then show ?thesis by blast
    next
      case None
      then have "rx_match ps xs (Some (acc @ [x])) = Some g" using h inx by simp
      then have "accepts ps xs (Some (acc @ [x])) g" using 9(2) inx None by simp
      then have "x # xs = [x] @ xs \<and> [x] \<noteq> [] \<and> (\<forall>y\<in>set [x]. in_cls k y) \<and>
          accepts ps xs (Some (acc @ [x])) g"
        using inx by simp
      then show ?thesis by blast
    qed
  qed
qed

lemma rx_complete:
  "(accepts ps s cap g \<longrightarrow> rx_match ps s cap \<noteq> None)"
  "(\<forall>u v. s = u @ v \<and> u \<noteq> [] \<and> (\<forall>x\<in>set u. in_cls k x) \<and> accepts ps v (Some (acc @ u)) g \<longrightarrow>
      rx_group k ps acc s \<noteq> None)"
proof (induction ps s cap and k ps acc s arbitrary: g and g rule: rx_match_rx_group.induct)
  case (1 s cap)
  show ?case by simp
next
  case (2 l ps s cap)
  show ?case
  proof
    assume "accepts (Lit l # ps) s cap g"
    then obtain u v where s: "s = u @ v" "same_ignoring_case u l" and a: "accepts ps v cap g"
      using accepts_Lit_split by blast
    then have r: "strip_lit l s = Some v" using strip_lit_iff by blast
    then have "rx_match ps v cap \<noteq> None" using 2 a by blast
    then show "rx_match (Lit l # ps) s cap \<noteq> None" using r by simp
  qed
next
  case (3 k ps cap)
  show ?case by simp
next
  case (4 k ps x xs cap)
  then show ?case by auto
next
  case (5 k ps cap)
  then show ?case by auto
next
  case (6 k ps x xs cap)
  show ?case
  proof
    assume "accepts (Star k # ps) (x # xs) cap g"
    then obtain u v where s: "x # xs = u @ v" "\<forall>y\<in>set u. in_cls k y" and a: "accepts ps v cap g"
      using accepts_Star_split by blast
    show "rx_match (Star k # ps) (x # xs) cap \<noteq> None"
    proof (cases u)
      case Nil
      then have acc: "accepts ps (x # xs) cap g" using s a by simp
      show ?thesis
      proof (cases "in_cls k x")
        case True
        show ?thesis
        proof (cases "rx_match (Star k # ps) xs cap")
          case None
          then have "rx_match ps (x # xs) cap \<noteq> None" using 6(2) True acc by blast
          then show ?thesis using True None by simp
        next
          case (Some r)
          then show ?thesis using True by simp
        qed
      next
        case False
        then have "rx_match ps (x # xs) cap \<noteq> None" using 6(3) acc by blast
        then show ?thesis using False by simp
      qed
    next
      case (Cons y u')
      then have inx: "in_cls k x" and xs: "xs = u' @ v" and u': "\<forall>y\<in>set u'. in_cls k y"
        using s by auto
      then have "accepts (Star k # ps) xs cap g" using a accepts_Star [of xs u' v k ps cap g] by blast
      then have "rx_match (Star k # ps) xs cap \<noteq> None" using 6(1) inx by blast
      then show ?thesis using inx by (auto split: option.splits)
    qed
  qed
next
  case (7 k ps s cap)
  show ?case
  proof
    assume "accepts (Group1Plus k # ps) s cap g"
    then have "\<exists>u v. s = u @ v \<and> u \<noteq> [] \<and> (\<forall>x\<in>set u. in_cls k x) \<and> accepts ps v (Some u) g"
      by (rule accepts_Group_split)
    then obtain u v where
      "s = u @ v \<and> u \<noteq> [] \<and> (\<forall>x\<in>set u. in_cls k x) \<and> accepts ps v (Some u) g"
      by blast
    then have "s = u @ v \<and> u \<noteq> [] \<and> (\<forall>x\<in>set u. in_cls k x) \<and> accepts ps v (Some ([] @ u)) g"
      by simp
    then have "rx_group k ps [] s \<noteq> None" using 7 by blast
    then show "rx_match (Group1Plus k # ps) s cap \<noteq> None" by simp
  qed
next
  case (8 k ps acc)
  show ?case by simp
next
  case (9 k ps acc x xs)
  show ?case
  proof (intro allI impI)
    fix u v
    assume h: "x # xs = u @ v \<and> u \<noteq> [] \<and> (\<forall>y\<in>set u. in_cls k y) \<and>
      accepts ps v (Some (acc @ u)) g"
    then obtain y u' where u: "u = y # u'" by (cases u) auto
    with h have inx: "in_cls k x" and xs: "xs = u' @ v" and yx: "y = x"
      and u': "\<forall>y\<in>set u'. in_cls k y" by auto
    show "rx_group k ps acc (x # xs) \<noteq> None"
    proof (cases "u' = []")
      case True
      then have ac: "accepts ps xs (Some (acc @ [x])) g" using h u xs yx by simp
      show ?thesis
      proof (cases "rx_group k ps (acc @ [x]) xs")
        case None
        then have "rx_match ps xs (Some (acc @ [x])) \<noteq> None" using 9(2) inx ac by blast
        then show ?thesis using inx None by simp
      next
        case (Some r)
        then show ?thesis using inx by simp
      qed
    next
      case False
      have "accepts ps v (Some ((acc @ [x]) @ u')) g" using h u yx by simp
      then have "rx_group k ps (acc @ [x]) xs \<noteq> None"
        using 9(1) inx xs False u' by blast
      then show ?thesis using inx by (auto split: option.splits)
    qed
  qed
qed

lemma canonicalize_plain:
  "(of_char c :: nat) < 65 \<Longrightarrow> canonicalize x = of_char c \<longleftrightarrow> x = c"
proof
  assume c: "(of_char c :: nat) < 65" and "canonicalize x = of_char c"
  then have "(of_char x :: nat) = of_char c"
    by (auto simp: canonicalize_def Let_def split: if_splits)
  then show "x = c" by simp
next
  assume "(of_char c :: nat) < 65" and "x = c"
  then show "canonicalize x = of_char c" by (simp add: canonicalize_def Let_def)
qed

lemma in_cls_quotes: "in_cls (OneOf quotes) x \<longleftrightarrow> quote x"
  using canonicalize_plain [of "CHR 0x22" x] canonicalize_plain [of "CHR 0x27" x]
  by (simp add: quotes_def quote_def canonicalize_def)

lemma in_cls_not_quotes: "in_cls (NoneOf quotes) x \<longleftrightarrow> \<not> quote x"
  using canonicalize_plain [of "CHR 0x22" x] canonicalize_plain [of "CHR 0x27" x]
  by (simp add: quotes_def quote_def canonicalize_def)

lemma in_cls_not_gt: "in_cls (NoneOf ''>'') x \<longleftrightarrow> x \<noteq> CHR ''>''"
  using canonicalize_plain [of "CHR ''>''" x]
  by (simp add: canonicalize_def)

declare in_cls.simps [simp del]

lemma found_at:
  "s = pre @ post \<Longrightarrow> accepts ps post None g \<Longrightarrow>
     \<exists>pre post. s = pre @ post \<and> accepts ps post None g"
  by (rule exI [of _ pre], rule exI [of _ post]) simp

lemma rx_search_sound:
  "rx_search ps s = Some g \<Longrightarrow> \<exists>pre post. s = pre @ post \<and> accepts ps post None g"
proof (induction ps s rule: rx_search.induct)
  case (1 ps)
  then have "accepts ps [] None g" using rx_sound(1) by simp
  then show ?case using found_at [of "[]" "[]" "[]"] by simp
next
  case (2 ps x xs)
  show ?case
  proof (cases "rx_match ps (x # xs) None")
    case None
    then have "rx_search ps xs = Some g" using 2(2) by simp
    then have "\<exists>pre post. xs = pre @ post \<and> accepts ps post None g"
      using 2(1) None by simp
    then obtain pre post where pp: "xs = pre @ post" "accepts ps post None g"
      by (elim exE conjE)
    from pp(1) have "x # xs = (x # pre) @ post" by simp
    then show ?thesis using pp(2) by (rule found_at)
  next
    case (Some r)
    then have "rx_match ps (x # xs) None = Some g" using 2(2) by simp
    then have "accepts ps (x # xs) None g" using rx_sound(1) by simp
    then show ?thesis using found_at [of "x # xs" "[]" "x # xs"] by simp
  qed
qed

lemma rx_search_complete:
  "accepts ps post None g \<Longrightarrow> rx_search ps (pre @ post) \<noteq> None"
proof (induction pre)
  case Nil
  then have m: "rx_match ps post None \<noteq> None" using rx_complete(1) by blast
  show ?case
  proof (cases post)
    case Nil
    then show ?thesis using m by simp
  next
    case (Cons x xs)
    then show ?thesis using m by (auto split: option.splits)
  qed
next
  case (Cons x pre)
  then show ?case by (auto split: option.splits)
qed

lemma accepts_Cls_split:
  "accepts (Cls k # ps) s cap g \<Longrightarrow> \<exists>x v. s = x # v \<and> in_cls k x \<and> accepts ps v cap g"
  by simp

lemma accepts_content_property:
  assumes "accepts re_content_property s None g"
  shows "\<exists>ct q3 X q4 mid p q1 og q2 rest.
      s = ct @ [q3] @ X @ [q4] @ mid @ p @ [q1] @ og @ [q2] @ rest \<and>
      same_ignoring_case ct ''content='' \<and> quote q3 \<and>
      X \<noteq> [] \<and> (\<forall>x\<in>set X. \<not> quote x) \<and> quote q4 \<and>
      CHR ''>'' \<notin> set mid \<and>
      same_ignoring_case p ''property='' \<and> quote q1 \<and>
      same_ignoring_case og ''og:image'' \<and> quote q2 \<and> g = Some X"
proof -
  from assms obtain ct s1 where 1: "s = ct @ s1" "same_ignoring_case ct ''content=''"
    and a1: "accepts (tl re_content_property) s1 None g"
    unfolding re_content_property_def using accepts_Lit_split by (metis list.sel(3))
  from a1 obtain q3 s2 where 2: "s1 = q3 # s2" "quote q3"
    and a2: "accepts (tl (tl re_content_property)) s2 None g"
    unfolding re_content_property_def using accepts_Cls_split in_cls_quotes by (metis list.sel(3))
  from a2 obtain X s3 where 3: "s2 = X @ s3" "X \<noteq> []" "\<forall>x\<in>set X. \<not> quote x"
    and a3: "accepts (tl (tl (tl re_content_property))) s3 (Some X) g"
    unfolding re_content_property_def using accepts_Group_split in_cls_not_quotes
    by (metis list.sel(3))
  from a3 obtain q4 s4 where 4: "s3 = q4 # s4" "quote q4"
    and a4: "accepts (tl (tl (tl (tl re_content_property)))) s4 (Some X) g"
    unfolding re_content_property_def using accepts_Cls_split in_cls_quotes by (metis list.sel(3))
  from a4 obtain mid s5 where 5: "s4 = mid @ s5" "\<forall>x\<in>set mid. x \<noteq> CHR ''>''"
    and a5: "accepts (tl (tl (tl (tl (tl re_content_property))))) s5 (Some X) g"
    unfolding re_content_property_def using accepts_Star_split in_cls_not_gt by (metis list.sel(3))
  from a5 obtain p s6 where 6: "s5 = p @ s6" "same_ignoring_case p ''property=''"
    and a6: "accepts (tl (tl (tl (tl (tl (tl re_content_property)))))) s6 (Some X) g"
    unfolding re_content_property_def using accepts_Lit_split by (metis list.sel(3))
  from a6 obtain q1 s7 where 7: "s6 = q1 # s7" "quote q1"
    and a7: "accepts (tl (tl (tl (tl (tl (tl (tl re_content_property))))))) s7 (Some X) g"
    unfolding re_content_property_def using accepts_Cls_split in_cls_quotes by (metis list.sel(3))
  from a7 obtain og s8 where 8: "s7 = og @ s8" "same_ignoring_case og ''og:image''"
    and a8: "accepts (tl (tl (tl (tl (tl (tl (tl (tl re_content_property)))))))) s8 (Some X) g"
    unfolding re_content_property_def using accepts_Lit_split by (metis list.sel(3))
  from a8 obtain q2 s9 where 9: "s8 = q2 # s9" "quote q2" and a9: "g = Some X"
    unfolding re_content_property_def using accepts_Cls_split in_cls_quotes
    by (metis accepts.simps(1) list.sel(3))
  have "s = ct @ [q3] @ X @ [q4] @ mid @ p @ [q1] @ og @ [q2] @ s9"
    using 1(1) 2(1) 3(1) 4(1) 5(1) 6(1) 7(1) 8(1) 9(1) by simp
  moreover have "CHR ''>'' \<notin> set mid" using 5(2) by blast
  ultimately show ?thesis
    using 1(2) 2(2) 3(2,3) 4(2) 6(2) 7(2) 8(2) 9(2) a9 by blast
qed

lemma accepts_Lit_app:
  "same_ignoring_case u l \<Longrightarrow> accepts ps v cap g \<Longrightarrow> accepts (Lit l # ps) (u @ v) cap g"
  using accepts_Lit [of "u @ v" u v l ps cap g] by simp

lemma accepts_Quote_app:
  "quote q \<Longrightarrow> accepts ps v cap g \<Longrightarrow> accepts (Cls (OneOf quotes) # ps) ([q] @ v) cap g"
  using accepts_Cls [of "OneOf quotes" q ps v cap g] by (simp add: in_cls_quotes)

lemma accepts_Star_app:
  "CHR ''>'' \<notin> set u \<Longrightarrow> accepts ps v cap g \<Longrightarrow> accepts (Star (NoneOf ''>'') # ps) (u @ v) cap g"
proof -
  assume "CHR ''>'' \<notin> set u" and a: "accepts ps v cap g"
  then have "\<forall>x\<in>set u. in_cls (NoneOf ''>'') x" by (auto simp: in_cls_not_gt)
  with refl show ?thesis using a by (rule accepts_Star)
qed

lemma accepts_Group_app:
  "X \<noteq> [] \<Longrightarrow> \<forall>x\<in>set X. \<not> quote x \<Longrightarrow> accepts ps v (Some X) g \<Longrightarrow>
     accepts (Group1Plus (NoneOf quotes) # ps) (X @ v) cap g"
proof -
  assume x: "X \<noteq> []" and "\<forall>x\<in>set X. \<not> quote x" and a: "accepts ps v (Some X) g"
  then have "\<forall>x\<in>set X. in_cls (NoneOf quotes) x" by (simp add: in_cls_not_quotes)
  with refl x show ?thesis using a by (rule accepts_Group)
qed

lemma accepts_end: "accepts [] rest (Some X) (Some X)"
  by simp

lemma property_content_accepts:
  assumes "same_ignoring_case p ''property=''" "quote q1" "same_ignoring_case og ''og:image''"
    "quote q2" "CHR ''>'' \<notin> set mid" "same_ignoring_case ct ''content=''" "quote q3"
    "X \<noteq> []" "\<forall>x\<in>set X. \<not> quote x" "quote q4"
  shows "accepts re_property_content
           (p @ [q1] @ og @ [q2] @ mid @ ct @ [q3] @ X @ [q4] @ rest) None (Some X)"
  unfolding re_property_content_def
  by (intro accepts_Lit_app accepts_Quote_app accepts_Star_app accepts_Group_app accepts_end assms)

lemma content_property_accepts:
  assumes "same_ignoring_case ct ''content=''" "quote q3"
    "X \<noteq> []" "\<forall>x\<in>set X. \<not> quote x" "quote q4" "CHR ''>'' \<notin> set mid"
    "same_ignoring_case p ''property=''" "quote q1" "same_ignoring_case og ''og:image''" "quote q2"
  shows "accepts re_content_property
           (ct @ [q3] @ X @ [q4] @ mid @ p @ [q1] @ og @ [q2] @ rest) None (Some X)"
  unfolding re_content_property_def
  by (intro accepts_Lit_app accepts_Quote_app accepts_Star_app accepts_Group_app accepts_end assms)

lemma same_ignoring_case_length: "same_ignoring_case u l \<Longrightarrow> length u = length l"
  unfolding same_ignoring_case_def by (metis length_map)

lemma rx_match_Lit_split:
  assumes "rx_match (Lit l # ps) s cap = Some g"
  shows "\<exists>u v. s = u @ v \<and> same_ignoring_case u l \<and> rx_match ps v cap = Some g"
proof -
  obtain rest where r: "strip_lit l s = Some rest" and m: "rx_match ps rest cap = Some g"
    using assms by (cases "strip_lit l s") simp_all
  from r have "\<exists>u. s = u @ rest \<and> same_ignoring_case u l" by (simp only: strip_lit_iff)
  then obtain u where "s = u @ rest" "same_ignoring_case u l" by (elim exE conjE)
  then have "s = u @ rest \<and> same_ignoring_case u l \<and> rx_match ps rest cap = Some g"
    using m by simp
  then show ?thesis by (intro exI)
qed

lemma rx_match_Cls_split:
  assumes "rx_match (Cls k # ps) s cap = Some g"
  shows "\<exists>x v. s = x # v \<and> in_cls k x \<and> rx_match ps v cap = Some g"
proof (cases s)
  case Nil
  then show ?thesis using assms by simp
next
  case (Cons x v)
  then have "in_cls k x" using assms by (cases "in_cls k x") simp_all
  then have "s = x # v \<and> in_cls k x \<and> rx_match ps v cap = Some g"
    using assms Cons by simp
  then show ?thesis by (intro exI)
qed

text \<open>A star that can stop before a match of the rest can be matched.\<close>

lemma star_reaches:
  "\<forall>x\<in>set u. in_cls k x \<Longrightarrow> rx_match ps v cap \<noteq> None \<Longrightarrow>
     rx_match (Star k # ps) (u @ v) cap \<noteq> None"
proof (induction u)
  case Nil
  then show ?case by (cases v) (auto split: option.splits)
next
  case (Cons x u)
  then have "in_cls k x" and "rx_match (Star k # ps) (u @ v) cap \<noteq> None" by simp_all
  then show ?case by (auto split: option.splits)
qed

text \<open>The greedy star stops as late as a match of the rest allows.\<close>

lemma star_longest:
  "rx_match (Star k # ps) s cap = Some g \<Longrightarrow>
     \<exists>u v. s = u @ v \<and> (\<forall>x\<in>set u. in_cls k x) \<and> rx_match ps v cap = Some g \<and>
       (\<forall>u' v'. s = u' @ v' \<and> (\<forall>x\<in>set u'. in_cls k x) \<and> rx_match ps v' cap \<noteq> None \<longrightarrow>
          length u' \<le> length u)"
proof (induction s)
  case Nil
  then have "rx_match ps [] cap = Some g" by simp
  then have "[] = [] @ [] \<and> (\<forall>x\<in>set []. in_cls k x) \<and> rx_match ps [] cap = Some g \<and>
       (\<forall>u' v'. [] = u' @ v' \<and> (\<forall>x\<in>set u'. in_cls k x) \<and> rx_match ps v' cap \<noteq> None \<longrightarrow>
          length u' \<le> length ([] :: string))"
    by simp
  then show ?case by (intro exI)
next
  case (Cons x xs)
  show ?case
  proof (cases "in_cls k x \<and> rx_match (Star k # ps) xs cap \<noteq> None")
    case True
    then have inx: "in_cls k x" and "rx_match (Star k # ps) xs cap = Some g"
      using Cons.prems by auto
    then have "\<exists>u v. xs = u @ v \<and> (\<forall>x\<in>set u. in_cls k x) \<and> rx_match ps v cap = Some g \<and>
       (\<forall>u' v'. xs = u' @ v' \<and> (\<forall>x\<in>set u'. in_cls k x) \<and> rx_match ps v' cap \<noteq> None \<longrightarrow>
          length u' \<le> length u)"
      using Cons.IH by simp
    then obtain u v where uv: "xs = u @ v" "\<forall>x\<in>set u. in_cls k x" "rx_match ps v cap = Some g"
      and mx: "\<forall>u' v'. xs = u' @ v' \<and> (\<forall>x\<in>set u'. in_cls k x) \<and> rx_match ps v' cap \<noteq> None \<longrightarrow>
          length u' \<le> length u"
      by (elim exE conjE)
    have "\<forall>u' v'. x # xs = u' @ v' \<and> (\<forall>x\<in>set u'. in_cls k x) \<and> rx_match ps v' cap \<noteq> None \<longrightarrow>
          length u' \<le> length (x # u)"
    proof (intro allI impI)
      fix u' v'
      assume h: "x # xs = u' @ v' \<and> (\<forall>x\<in>set u'. in_cls k x) \<and> rx_match ps v' cap \<noteq> None"
      show "length u' \<le> length (x # u)"
      proof (cases u')
        case Nil
        then show ?thesis by simp
      next
        case (Cons y u'')
        then have "xs = u'' @ v' \<and> (\<forall>x\<in>set u''. in_cls k x) \<and> rx_match ps v' cap \<noteq> None"
          using h by simp
        then have "length u'' \<le> length u" using mx by blast
        then show ?thesis using Cons by simp
      qed
    qed
    then have "x # xs = (x # u) @ v \<and> (\<forall>y\<in>set (x # u). in_cls k y) \<and>
        rx_match ps v cap = Some g \<and>
        (\<forall>u' v'. x # xs = u' @ v' \<and> (\<forall>x\<in>set u'. in_cls k x) \<and> rx_match ps v' cap \<noteq> None \<longrightarrow>
          length u' \<le> length (x # u))"
      using uv inx by simp
    then show ?thesis by (intro exI)
  next
    case False
    then have m: "rx_match ps (x # xs) cap = Some g"
      using Cons.prems by (cases "in_cls k x") auto
    have "\<forall>u' v'. x # xs = u' @ v' \<and> (\<forall>x\<in>set u'. in_cls k x) \<and> rx_match ps v' cap \<noteq> None \<longrightarrow>
          length u' \<le> length ([] :: string)"
    proof (intro allI impI)
      fix u' v'
      assume h: "x # xs = u' @ v' \<and> (\<forall>x\<in>set u'. in_cls k x) \<and> rx_match ps v' cap \<noteq> None"
      show "length u' \<le> length ([] :: string)"
      proof (cases u')
        case Nil
        then show ?thesis by simp
      next
        case (Cons y u'')
        then have y: "y = x" "xs = u'' @ v'" "in_cls k x" "\<forall>x\<in>set u''. in_cls k x"
          using h by simp_all
        then have "rx_match (Star k # ps) (u'' @ v') cap \<noteq> None"
          using h star_reaches by blast
        then have "rx_match (Star k # ps) xs cap \<noteq> None" using y(2) by simp
        then show ?thesis using False y(3) by simp
      qed
    qed
    then have "x # xs = [] @ (x # xs) \<and> (\<forall>y\<in>set []. in_cls k y) \<and>
        rx_match ps (x # xs) cap = Some g \<and>
        (\<forall>u' v'. x # xs = u' @ v' \<and> (\<forall>x\<in>set u'. in_cls k x) \<and> rx_match ps v' cap \<noteq> None \<longrightarrow>
          length u' \<le> length ([] :: string))"
      using m by simp
    then show ?thesis by (intro exI)
  qed
qed

text \<open>The search answers with the match at the leftmost index that has one.\<close>

lemma rx_search_leftmost:
  "rx_search ps s = Some g \<Longrightarrow>
     \<exists>pre post. s = pre @ post \<and> rx_match ps post None = Some g \<and>
       (\<forall>pre' post'. s = pre' @ post' \<and> length pre' < length pre \<longrightarrow>
          rx_match ps post' None = None)"
proof (induction ps s rule: rx_search.induct)
  case (1 ps)
  then have "[] = [] @ [] \<and> rx_match ps [] None = Some g \<and>
       (\<forall>pre' post'. [] = pre' @ post' \<and> length pre' < length ([] :: string) \<longrightarrow>
          rx_match ps post' None = None)"
    by simp
  then show ?case by (intro exI)
next
  case (2 ps x xs)
  show ?case
  proof (cases "rx_match ps (x # xs) None")
    case (Some r)
    then have "x # xs = [] @ (x # xs) \<and> rx_match ps (x # xs) None = Some g \<and>
       (\<forall>pre' post'. x # xs = pre' @ post' \<and> length pre' < length ([] :: string) \<longrightarrow>
          rx_match ps post' None = None)"
      using 2(2) by simp
    then show ?thesis by (intro exI)
  next
    case None
    then have "rx_search ps xs = Some g" using 2(2) by simp
    then have "\<exists>pre post. xs = pre @ post \<and> rx_match ps post None = Some g \<and>
       (\<forall>pre' post'. xs = pre' @ post' \<and> length pre' < length pre \<longrightarrow>
          rx_match ps post' None = None)"
      using 2(1) None by simp
    then obtain pre post where pp: "xs = pre @ post" "rx_match ps post None = Some g"
      and lm: "\<forall>pre' post'. xs = pre' @ post' \<and> length pre' < length pre \<longrightarrow>
          rx_match ps post' None = None"
      by (elim exE conjE)
    have "\<forall>pre' post'. x # xs = pre' @ post' \<and> length pre' < length (x # pre) \<longrightarrow>
          rx_match ps post' None = None"
    proof (intro allI impI)
      fix pre' post'
      assume h: "x # xs = pre' @ post' \<and> length pre' < length (x # pre)"
      show "rx_match ps post' None = None"
      proof (cases pre')
        case Nil
        then show ?thesis using h None by simp
      next
        case (Cons y p'')
        then have "xs = p'' @ post' \<and> length p'' < length pre" using h by simp
        then show ?thesis using lm by blast
      qed
    qed
    then have "x # xs = (x # pre) @ post \<and> rx_match ps post None = Some g \<and>
       (\<forall>pre' post'. x # xs = pre' @ post' \<and> length pre' < length (x # pre) \<longrightarrow>
          rx_match ps post' None = None)"
      using pp by simp
    then show ?thesis by (intro exI)
  qed
qed

lemma property_first_atI:
  "html = pre @ p @ [q1] @ og @ [q2] @ mid @ ct @ [q3] @ X @ [q4] @ post \<Longrightarrow>
   same_ignoring_case p ''property='' \<Longrightarrow> quote q1 \<Longrightarrow>
   same_ignoring_case og ''og:image'' \<Longrightarrow> quote q2 \<Longrightarrow>
   CHR ''>'' \<notin> set mid \<Longrightarrow>
   same_ignoring_case ct ''content='' \<Longrightarrow> quote q3 \<Longrightarrow>
   X \<noteq> [] \<Longrightarrow> \<forall>x\<in>set X. \<not> quote x \<Longrightarrow> quote q4 \<Longrightarrow>
   property_first_at html (length pre) (length mid) X"
  unfolding property_first_at_def
  apply (rule exI [of _ pre], rule exI [of _ p], rule exI [of _ q1], rule exI [of _ og])
  apply (rule exI [of _ q2], rule exI [of _ mid], rule exI [of _ ct], rule exI [of _ q3])
  apply (rule exI [of _ q4], rule exI [of _ post])
  apply simp
  done

lemma content_first_atI:
  "html = pre @ ct @ [q3] @ X @ [q4] @ mid @ p @ [q1] @ og @ [q2] @ post \<Longrightarrow>
   same_ignoring_case ct ''content='' \<Longrightarrow> quote q3 \<Longrightarrow>
   X \<noteq> [] \<Longrightarrow> \<forall>x\<in>set X. \<not> quote x \<Longrightarrow> quote q4 \<Longrightarrow>
   CHR ''>'' \<notin> set mid \<Longrightarrow>
   same_ignoring_case p ''property='' \<Longrightarrow> quote q1 \<Longrightarrow>
   same_ignoring_case og ''og:image'' \<Longrightarrow> quote q2 \<Longrightarrow>
   content_first_at html (length pre) X"
  unfolding content_first_at_def
  apply (rule exI [of _ pre], rule exI [of _ ct], rule exI [of _ q3], rule exI [of _ q4])
  apply (rule exI [of _ mid], rule exI [of _ p], rule exI [of _ q1], rule exI [of _ og])
  apply (rule exI [of _ q2], rule exI [of _ post])
  apply simp
  done

text \<open>The content of a pattern is fixed by where it stands.\<close>

lemma content_run:
  "\<forall>x\<in>set X. \<not> quote x \<Longrightarrow> quote q \<Longrightarrow> takeWhile (\<lambda>x. \<not> quote x) (X @ [q] @ post) = X"
  by (induction X) auto

lemma property_first_at_content:
  assumes "property_first_at html n m X"
  shows "X = takeWhile (\<lambda>x. \<not> quote x) (drop (n + m + 28) html)"
proof -
  obtain pre p q1 og q2 mid ct q3 q4 post where d:
      "html = pre @ p @ [q1] @ og @ [q2] @ mid @ ct @ [q3] @ X @ [q4] @ post"
      "length pre = n" "length mid = m"
      "same_ignoring_case p ''property=''" "quote q1"
      "same_ignoring_case og ''og:image''" "quote q2"
      "CHR ''>'' \<notin> set mid"
      "same_ignoring_case ct ''content=''" "quote q3"
      "X \<noteq> []" "\<forall>x\<in>set X. \<not> quote x" "quote q4"
    using assms unfolding property_first_at_def by (elim exE conjE)
  have l: "length p = 9" "length og = 8" "length ct = 8"
    using d(4,6,9) same_ignoring_case_length by fastforce+
  define front where "front = pre @ p @ [q1] @ og @ [q2] @ mid @ ct @ [q3]"
  have "html = front @ (X @ [q4] @ post)" "length front = n + m + 28"
    unfolding front_def d(1) using d(2,3) l by simp_all
  then have "drop (n + m + 28) html = X @ [q4] @ post"
    by (metis append_eq_conv_conj)
  then show ?thesis using content_run [OF d(12,13)] by simp
qed

lemma content_first_at_content:
  assumes "content_first_at html n X"
  shows "X = takeWhile (\<lambda>x. \<not> quote x) (drop (n + 9) html)"
proof -
  obtain pre ct q3 q4 mid p q1 og q2 post where d:
      "html = pre @ ct @ [q3] @ X @ [q4] @ mid @ p @ [q1] @ og @ [q2] @ post"
      "length pre = n"
      "same_ignoring_case ct ''content=''" "quote q3"
      "X \<noteq> []" "\<forall>x\<in>set X. \<not> quote x" "quote q4"
      "CHR ''>'' \<notin> set mid"
      "same_ignoring_case p ''property=''" "quote q1"
      "same_ignoring_case og ''og:image''" "quote q2"
    using assms unfolding content_first_at_def by (elim exE conjE)
  have l: "length ct = 8"
    using d(3) same_ignoring_case_length by fastforce
  define front where "front = pre @ ct @ [q3]"
  have "html = front @ (X @ [q4] @ (mid @ p @ [q1] @ og @ [q2] @ post))"
      "length front = n + 9"
    unfolding front_def d(1) using d(2) l by simp_all
  then have "drop (n + 9) html = X @ [q4] @ (mid @ p @ [q1] @ og @ [q2] @ post)"
    by (metis append_eq_conv_conj)
  then show ?thesis using content_run [OF d(6,7)] by simp
qed

text \<open>A pattern at index \<open>n\<close> is a pattern at the front of what is left there.\<close>

lemma property_first_at_drop:
  assumes "property_first_at html n m X"
  shows "\<exists>pre post. html = pre @ post \<and> length pre = n \<and> property_first_at post 0 m X"
proof -
  obtain pre p q1 og q2 mid ct q3 q4 post where d:
      "html = pre @ p @ [q1] @ og @ [q2] @ mid @ ct @ [q3] @ X @ [q4] @ post"
      "length pre = n" "length mid = m"
      "same_ignoring_case p ''property=''" "quote q1"
      "same_ignoring_case og ''og:image''" "quote q2"
      "CHR ''>'' \<notin> set mid"
      "same_ignoring_case ct ''content=''" "quote q3"
      "X \<noteq> []" "\<forall>x\<in>set X. \<not> quote x" "quote q4"
    using assms unfolding property_first_at_def by (elim exE conjE)
  have "property_first_at ([] @ p @ [q1] @ og @ [q2] @ mid @ ct @ [q3] @ X @ [q4] @ post)
      (length ([] :: string)) (length mid) X"
    using refl d(4-) by (rule property_first_atI)
  then have "html = pre @ (p @ [q1] @ og @ [q2] @ mid @ ct @ [q3] @ X @ [q4] @ post) \<and>
      length pre = n \<and>
      property_first_at (p @ [q1] @ og @ [q2] @ mid @ ct @ [q3] @ X @ [q4] @ post) 0 m X"
    using d(1,2,3) by simp
  then show ?thesis by (intro exI)
qed

lemma property_first_at_shift:
  assumes "property_first_at post 0 m X"
  shows "property_first_at (pre @ post) (length pre) m X"
proof -
  obtain pre' p q1 og q2 mid ct q3 q4 post' where d:
      "post = pre' @ p @ [q1] @ og @ [q2] @ mid @ ct @ [q3] @ X @ [q4] @ post'"
      "length pre' = 0" "length mid = m"
      "same_ignoring_case p ''property=''" "quote q1"
      "same_ignoring_case og ''og:image''" "quote q2"
      "CHR ''>'' \<notin> set mid"
      "same_ignoring_case ct ''content=''" "quote q3"
      "X \<noteq> []" "\<forall>x\<in>set X. \<not> quote x" "quote q4"
    using assms unfolding property_first_at_def by (elim exE conjE)
  have "pre @ post = pre @ p @ [q1] @ og @ [q2] @ mid @ ct @ [q3] @ X @ [q4] @ post'"
    using d(1,2) by simp
  then have "property_first_at (pre @ post) (length pre) (length mid) X"
    using d(4-) by (rule property_first_atI)
  then show ?thesis using d(3) by simp
qed

lemma content_first_at_drop:
  assumes "content_first_at html n X"
  shows "\<exists>pre post. html = pre @ post \<and> length pre = n \<and> content_first_at post 0 X"
proof -
  obtain pre ct q3 q4 mid p q1 og q2 post where d:
      "html = pre @ ct @ [q3] @ X @ [q4] @ mid @ p @ [q1] @ og @ [q2] @ post"
      "length pre = n"
      "same_ignoring_case ct ''content=''" "quote q3"
      "X \<noteq> []" "\<forall>x\<in>set X. \<not> quote x" "quote q4"
      "CHR ''>'' \<notin> set mid"
      "same_ignoring_case p ''property=''" "quote q1"
      "same_ignoring_case og ''og:image''" "quote q2"
    using assms unfolding content_first_at_def by (elim exE conjE)
  have "content_first_at ([] @ ct @ [q3] @ X @ [q4] @ mid @ p @ [q1] @ og @ [q2] @ post)
      (length ([] :: string)) X"
    using refl d(3-) by (rule content_first_atI)
  then have "html = pre @ (ct @ [q3] @ X @ [q4] @ mid @ p @ [q1] @ og @ [q2] @ post) \<and>
      length pre = n \<and>
      content_first_at (ct @ [q3] @ X @ [q4] @ mid @ p @ [q1] @ og @ [q2] @ post) 0 X"
    using d(1,2) by simp
  then show ?thesis by (intro exI)
qed

lemma content_first_at_shift:
  assumes "content_first_at post 0 X"
  shows "content_first_at (pre @ post) (length pre) X"
proof -
  obtain pre' ct q3 q4 mid p q1 og q2 post' where d:
      "post = pre' @ ct @ [q3] @ X @ [q4] @ mid @ p @ [q1] @ og @ [q2] @ post'"
      "length pre' = 0"
      "same_ignoring_case ct ''content=''" "quote q3"
      "X \<noteq> []" "\<forall>x\<in>set X. \<not> quote x" "quote q4"
      "CHR ''>'' \<notin> set mid"
      "same_ignoring_case p ''property=''" "quote q1"
      "same_ignoring_case og ''og:image''" "quote q2"
    using assms unfolding content_first_at_def by (elim exE conjE)
  have "pre @ post = pre @ ct @ [q3] @ X @ [q4] @ mid @ p @ [q1] @ og @ [q2] @ post'"
    using d(1,2) by simp
  then show ?thesis using d(3-) by (rule content_first_atI)
qed

text \<open>A pattern at the front is what the anchored matcher accepts.\<close>

lemma property_first_matched:
  assumes "property_first_at s 0 m X"
  shows "rx_match re_property_content s None \<noteq> None"
proof -
  obtain pre p q1 og q2 mid ct q3 q4 post where d:
      "s = pre @ p @ [q1] @ og @ [q2] @ mid @ ct @ [q3] @ X @ [q4] @ post"
      "length pre = 0" "length mid = m"
      "same_ignoring_case p ''property=''" "quote q1"
      "same_ignoring_case og ''og:image''" "quote q2"
      "CHR ''>'' \<notin> set mid"
      "same_ignoring_case ct ''content=''" "quote q3"
      "X \<noteq> []" "\<forall>x\<in>set X. \<not> quote x" "quote q4"
    using assms unfolding property_first_at_def by (elim exE conjE)
  have "accepts re_property_content
          (p @ [q1] @ og @ [q2] @ mid @ ct @ [q3] @ X @ [q4] @ post) None (Some X)"
    using d(4-) by (rule property_content_accepts)
  then have "accepts re_property_content s None (Some X)" using d(1,2) by simp
  then show ?thesis using rx_complete(1) by blast
qed

lemma content_first_matched:
  assumes "content_first_at s 0 X"
  shows "rx_match re_content_property s None \<noteq> None"
proof -
  obtain pre ct q3 q4 mid p q1 og q2 post where d:
      "s = pre @ ct @ [q3] @ X @ [q4] @ mid @ p @ [q1] @ og @ [q2] @ post"
      "length pre = 0"
      "same_ignoring_case ct ''content=''" "quote q3"
      "X \<noteq> []" "\<forall>x\<in>set X. \<not> quote x" "quote q4"
      "CHR ''>'' \<notin> set mid"
      "same_ignoring_case p ''property=''" "quote q1"
      "same_ignoring_case og ''og:image''" "quote q2"
    using assms unfolding content_first_at_def by (elim exE conjE)
  have "accepts re_content_property
          (ct @ [q3] @ X @ [q4] @ mid @ p @ [q1] @ og @ [q2] @ post) None (Some X)"
    using d(3-) by (rule content_property_accepts)
  then have "accepts re_content_property s None (Some X)" using d(1,2) by simp
  then show ?thesis using rx_complete(1) by blast
qed

lemma content_first_anchored:
  assumes "rx_match re_content_property s None = Some g"
  shows "\<exists>X. g = Some X \<and> content_first_at s 0 X"
proof -
  have "accepts re_content_property s None g" using assms rx_sound(1) by blast
  from accepts_content_property [OF this]
  obtain ct q3 X q4 mid p q1 og q2 rest where d:
      "s = ct @ [q3] @ X @ [q4] @ mid @ p @ [q1] @ og @ [q2] @ rest"
      "same_ignoring_case ct ''content=''" "quote q3"
      "X \<noteq> []" "\<forall>x\<in>set X. \<not> quote x" "quote q4"
      "CHR ''>'' \<notin> set mid"
      "same_ignoring_case p ''property=''" "quote q1"
      "same_ignoring_case og ''og:image''" "quote q2" "g = Some X"
    by (elim exE conjE)
  have "s = [] @ ct @ [q3] @ X @ [q4] @ mid @ p @ [q1] @ og @ [q2] @ rest" using d(1) by simp
  then have "content_first_at s (length ([] :: string)) X"
    using d(2-11) by (rule content_first_atI)
  then show ?thesis using d(12) by simp
qed

lemma content_attr_split:
  assumes "accepts [Lit ''content='', Cls (OneOf quotes), Group1Plus (NoneOf quotes),
                    Cls (OneOf quotes)] v None g"
  shows "\<exists>ct q3 X q4 post. v = ct @ [q3] @ X @ [q4] @ post \<and>
      same_ignoring_case ct ''content='' \<and> quote q3 \<and>
      X \<noteq> [] \<and> (\<forall>x\<in>set X. \<not> quote x) \<and> quote q4 \<and> g = Some X"
proof -
  from accepts_Lit_split [OF assms]
  obtain ct s1 where 1: "v = ct @ s1" "same_ignoring_case ct ''content=''"
    and a1: "accepts [Cls (OneOf quotes), Group1Plus (NoneOf quotes), Cls (OneOf quotes)] s1 None g"
    by (elim exE conjE)
  from accepts_Cls_split [OF a1]
  obtain q3 s2 where 2: "s1 = q3 # s2" "in_cls (OneOf quotes) q3"
    and a2: "accepts [Group1Plus (NoneOf quotes), Cls (OneOf quotes)] s2 None g"
    by (elim exE conjE)
  from accepts_Group_split [OF a2]
  obtain X s3 where 3: "s2 = X @ s3" "X \<noteq> []" "\<forall>x\<in>set X. in_cls (NoneOf quotes) x"
    and a3: "accepts [Cls (OneOf quotes)] s3 (Some X) g"
    by (elim exE conjE)
  from accepts_Cls_split [OF a3]
  obtain q4 s4 where 4: "s3 = q4 # s4" "in_cls (OneOf quotes) q4"
    and a4: "accepts [] s4 (Some X) g"
    by (elim exE conjE)
  have "v = ct @ [q3] @ X @ [q4] @ s4 \<and>
      same_ignoring_case ct ''content='' \<and> quote q3 \<and>
      X \<noteq> [] \<and> (\<forall>x\<in>set X. \<not> quote x) \<and> quote q4 \<and> g = Some X"
    using 1 2 3 4 a4 by (simp add: in_cls_quotes in_cls_not_quotes)
  then show ?thesis by (intro exI)
qed

lemma content_attr_accepts:
  assumes "same_ignoring_case ct ''content=''" "quote q3"
    "X \<noteq> []" "\<forall>x\<in>set X. \<not> quote x" "quote q4"
  shows "accepts [Lit ''content='', Cls (OneOf quotes), Group1Plus (NoneOf quotes),
                  Cls (OneOf quotes)] (ct @ [q3] @ X @ [q4] @ rest) None (Some X)"
  by (intro accepts_Lit_app accepts_Quote_app accepts_Group_app accepts_end assms)

text \<open>
  The anchored match of the first expression: a pattern at the front, and of the
  patterns at the front the one with the longest gap.
\<close>

lemma property_first_anchored:
  assumes "rx_match re_property_content s None = Some g"
  shows "\<exists>m X. g = Some X \<and> property_first_at s 0 m X \<and>
      (\<forall>m' X'. property_first_at s 0 m' X' \<longrightarrow> m' \<le> m)"
proof -
  let ?attr = "[Lit ''content='', Cls (OneOf quotes), Group1Plus (NoneOf quotes),
                Cls (OneOf quotes)]"
  from rx_match_Lit_split [OF assms [unfolded re_property_content_def]]
  obtain p s1 where 1: "s = p @ s1" "same_ignoring_case p ''property=''"
    and a1: "rx_match (Cls (OneOf quotes) # Lit ''og:image'' # Cls (OneOf quotes) #
                Star (NoneOf ''>'') # ?attr) s1 None = Some g"
    by (elim exE conjE)
  from rx_match_Cls_split [OF a1]
  obtain q1 s2 where 2: "s1 = q1 # s2" "in_cls (OneOf quotes) q1"
    and a2: "rx_match (Lit ''og:image'' # Cls (OneOf quotes) #
                Star (NoneOf ''>'') # ?attr) s2 None = Some g"
    by (elim exE conjE)
  from rx_match_Lit_split [OF a2]
  obtain og s3 where 3: "s2 = og @ s3" "same_ignoring_case og ''og:image''"
    and a3: "rx_match (Cls (OneOf quotes) # Star (NoneOf ''>'') # ?attr) s3 None = Some g"
    by (elim exE conjE)
  from rx_match_Cls_split [OF a3]
  obtain q2 s4 where 4: "s3 = q2 # s4" "in_cls (OneOf quotes) q2"
    and a4: "rx_match (Star (NoneOf ''>'') # ?attr) s4 None = Some g"
    by (elim exE conjE)
  from star_longest [OF a4]
  obtain mid v where 5: "s4 = mid @ v" "\<forall>x\<in>set mid. in_cls (NoneOf ''>'') x"
    and a5: "rx_match ?attr v None = Some g"
    and mx: "\<forall>u' v'. s4 = u' @ v' \<and> (\<forall>x\<in>set u'. in_cls (NoneOf ''>'') x) \<and>
                rx_match ?attr v' None \<noteq> None \<longrightarrow> length u' \<le> length mid"
    by (elim exE conjE)
  have "accepts ?attr v None g" using a5 rx_sound(1) by blast
  from content_attr_split [OF this]
  obtain ct q3 X q4 post where 6: "v = ct @ [q3] @ X @ [q4] @ post"
      "same_ignoring_case ct ''content=''" "quote q3"
      "X \<noteq> []" "\<forall>x\<in>set X. \<not> quote x" "quote q4" "g = Some X"
    by (elim exE conjE)
  have q: "quote q1" "quote q2" using 2(2) 4(2) by (simp_all add: in_cls_quotes)
  have gt: "CHR ''>'' \<notin> set mid" using 5(2) by (auto simp: in_cls_not_gt)
  have s: "s = [] @ p @ [q1] @ og @ [q2] @ mid @ ct @ [q3] @ X @ [q4] @ post"
    using 1(1) 2(1) 3(1) 4(1) 5(1) 6(1) by simp
  have "property_first_at s (length ([] :: string)) (length mid) X"
    using s 1(2) q(1) 3(2) q(2) gt 6(2-6) by (rule property_first_atI)
  then have here: "property_first_at s 0 (length mid) X" by simp
  have "\<forall>m' X'. property_first_at s 0 m' X' \<longrightarrow> m' \<le> length mid"
  proof (intro allI impI)
    fix m' X'
    assume "property_first_at s 0 m' X'"
    then obtain pre' p' q1' og' q2' mid' ct' q3' q4' post' where d:
        "s = pre' @ p' @ [q1'] @ og' @ [q2'] @ mid' @ ct' @ [q3'] @ X' @ [q4'] @ post'"
        "length pre' = 0" "length mid' = m'"
        "same_ignoring_case p' ''property=''" "quote q1'"
        "same_ignoring_case og' ''og:image''" "quote q2'"
        "CHR ''>'' \<notin> set mid'"
        "same_ignoring_case ct' ''content=''" "quote q3'"
        "X' \<noteq> []" "\<forall>x\<in>set X'. \<not> quote x" "quote q4'"
      unfolding property_first_at_def by (elim exE conjE)
    have lp: "length p' = length p"
      using d(4) 1(2) same_ignoring_case_length by fastforce
    have lo: "length og' = length og"
      using d(6) 3(2) same_ignoring_case_length by fastforce
    have "p @ (q1 # og @ q2 # s4) = p' @ (q1' # og' @ q2' # mid' @ ct' @ [q3'] @ X' @ [q4'] @ post')"
      using d(1,2) 1(1) 2(1) 3(1) 4(1) by simp
    then have "q1 # og @ q2 # s4 = q1' # og' @ q2' # mid' @ ct' @ [q3'] @ X' @ [q4'] @ post'"
      using lp by simp
    then have "og @ (q2 # s4) = og' @ (q2' # mid' @ ct' @ [q3'] @ X' @ [q4'] @ post')"
      by simp
    then have "q2 # s4 = q2' # mid' @ ct' @ [q3'] @ X' @ [q4'] @ post'"
      using lo by simp
    then have e: "s4 = mid' @ (ct' @ [q3'] @ X' @ [q4'] @ post')" by simp
    have "accepts ?attr (ct' @ [q3'] @ X' @ [q4'] @ post') None (Some X')"
      using d(9-13) by (rule content_attr_accepts)
    then have r: "rx_match ?attr (ct' @ [q3'] @ X' @ [q4'] @ post') None \<noteq> None"
      using rx_complete(1) by blast
    have c: "\<forall>x\<in>set mid'. in_cls (NoneOf ''>'') x" using d(8) by (auto simp: in_cls_not_gt)
    have "s4 = mid' @ (ct' @ [q3'] @ X' @ [q4'] @ post') \<and>
        (\<forall>x\<in>set mid'. in_cls (NoneOf ''>'') x) \<and>
        rx_match ?attr (ct' @ [q3'] @ X' @ [q4'] @ post') None \<noteq> None"
      using e c r by simp
    then have "length mid' \<le> length mid" using mx by blast
    then show "m' \<le> length mid" using d(3) by simp
  qed
  then have "g = Some X \<and> property_first_at s 0 (length mid) X \<and>
      (\<forall>m' X'. property_first_at s 0 m' X' \<longrightarrow> m' \<le> length mid)"
    using here 6(7) by simp
  then show ?thesis by (intro exI)
qed

text \<open>The two searches.\<close>

lemma search_property_first:
  assumes "rx_search re_property_content html = Some g"
  shows "\<exists>n m X. g = Some X \<and> property_first_at html n m X \<and>
      (\<forall>n' m' X'. property_first_at html n' m' X' \<longrightarrow> n < n' \<or> (n' = n \<and> m' \<le> m))"
proof -
  from rx_search_leftmost [OF assms]
  obtain pre post where h: "html = pre @ post"
    and a: "rx_match re_property_content post None = Some g"
    and lm: "\<forall>pre' post'. html = pre' @ post' \<and> length pre' < length pre \<longrightarrow>
               rx_match re_property_content post' None = None"
    by (elim exE conjE)
  from property_first_anchored [OF a]
  obtain m X where g: "g = Some X" and here: "property_first_at post 0 m X"
    and mx: "\<forall>m' X'. property_first_at post 0 m' X' \<longrightarrow> m' \<le> m"
    by (elim exE conjE)
  have at: "property_first_at html (length pre) m X"
    unfolding h using here by (rule property_first_at_shift)
  have "\<forall>n' m' X'. property_first_at html n' m' X' \<longrightarrow>
      length pre < n' \<or> (n' = length pre \<and> m' \<le> m)"
  proof (intro allI impI)
    fix n' m' X'
    assume p: "property_first_at html n' m' X'"
    from property_first_at_drop [OF p]
    obtain pre' post' where d: "html = pre' @ post'" "length pre' = n'"
        "property_first_at post' 0 m' X'"
      by (elim exE conjE)
    have nn: "rx_match re_property_content post' None \<noteq> None"
      using d(3) by (rule property_first_matched)
    have ge: "length pre \<le> n'"
    proof (rule ccontr)
      assume "\<not> length pre \<le> n'"
      then have "html = pre' @ post' \<and> length pre' < length pre" using d(1,2) by simp
      then have "rx_match re_property_content post' None = None" using lm by blast
      then show False using nn by simp
    qed
    show "length pre < n' \<or> (n' = length pre \<and> m' \<le> m)"
    proof (cases "n' = length pre")
      case True
      then have "pre' = pre \<and> post' = post" using h d(1,2) by simp
      then have "property_first_at post 0 m' X'" using d(3) by simp
      then have "m' \<le> m" using mx by blast
      then show ?thesis using True by simp
    next
      case False
      then show ?thesis using ge by simp
    qed
  qed
  then have "g = Some X \<and> property_first_at html (length pre) m X \<and>
      (\<forall>n' m' X'. property_first_at html n' m' X' \<longrightarrow>
         length pre < n' \<or> (n' = length pre \<and> m' \<le> m))"
    using g at by simp
  then show ?thesis by (intro exI)
qed

lemma search_content_first:
  assumes "rx_search re_content_property html = Some g"
  shows "\<exists>n X. g = Some X \<and> content_first_at html n X \<and>
      (\<forall>n' X'. content_first_at html n' X' \<longrightarrow> n \<le> n')"
proof -
  from rx_search_leftmost [OF assms]
  obtain pre post where h: "html = pre @ post"
    and a: "rx_match re_content_property post None = Some g"
    and lm: "\<forall>pre' post'. html = pre' @ post' \<and> length pre' < length pre \<longrightarrow>
               rx_match re_content_property post' None = None"
    by (elim exE conjE)
  from content_first_anchored [OF a]
  obtain X where g: "g = Some X" and here: "content_first_at post 0 X"
    by (elim exE conjE)
  have at: "content_first_at html (length pre) X"
    unfolding h using here by (rule content_first_at_shift)
  have "\<forall>n' X'. content_first_at html n' X' \<longrightarrow> length pre \<le> n'"
  proof (intro allI impI)
    fix n' X'
    assume p: "content_first_at html n' X'"
    from content_first_at_drop [OF p]
    obtain pre' post' where d: "html = pre' @ post'" "length pre' = n'"
        "content_first_at post' 0 X'"
      by (elim exE conjE)
    have nn: "rx_match re_content_property post' None \<noteq> None"
      using d(3) by (rule content_first_matched)
    show "length pre \<le> n'"
    proof (rule ccontr)
      assume "\<not> length pre \<le> n'"
      then have "html = pre' @ post' \<and> length pre' < length pre" using d(1,2) by simp
      then have "rx_match re_content_property post' None = None" using lm by blast
      then show False using nn by simp
    qed
  qed
  then have "g = Some X \<and> content_first_at html (length pre) X \<and>
      (\<forall>n' X'. content_first_at html n' X' \<longrightarrow> length pre \<le> n')"
    using g at by simp
  then show ?thesis by (intro exI)
qed

lemma property_first_found:
  assumes "property_first_at html n m X"
  shows "rx_search re_property_content html \<noteq> None"
proof -
  from property_first_at_drop [OF assms]
  obtain pre post where d: "html = pre @ post" "property_first_at post 0 m X"
    by (elim exE conjE)
  have "rx_match re_property_content post None \<noteq> None"
    using d(2) by (rule property_first_matched)
  then obtain g where "rx_match re_property_content post None = Some g" by blast
  then have "accepts re_property_content post None g" using rx_sound(1) by blast
  then show ?thesis unfolding d(1) by (rule rx_search_complete)
qed

lemma content_first_found:
  assumes "content_first_at html n X"
  shows "rx_search re_content_property html \<noteq> None"
proof -
  from content_first_at_drop [OF assms]
  obtain pre post where d: "html = pre @ post" "content_first_at post 0 X"
    by (elim exE conjE)
  have "rx_match re_content_property post None \<noteq> None"
    using d(2) by (rule content_first_matched)
  then obtain g where "rx_match re_content_property post None = Some g" by blast
  then have "accepts re_content_property post None g" using rx_sound(1) by blast
  then show ?thesis unfolding d(1) by (rule rx_search_complete)
qed

text \<open>What \<open>extractOgImage\<close> returns.\<close>

lemma extractOgImage_selected:
  assumes "extractOgImage html = Some X"
  shows "og_image_selected html X"
proof (cases "rx_search re_property_content html")
  case None
  then obtain g where g: "rx_search re_content_property html = Some g"
    using assms by (cases "rx_search re_content_property html") (simp_all add: extractOgImage_def)
  then have gx: "g = Some X" using assms None by (simp add: extractOgImage_def)
  have no: "\<forall>n m X'. \<not> property_first_at html n m X'"
    using property_first_found None by blast
  from search_content_first [OF g]
  obtain n Y where "g = Some Y" "content_first_at html n Y"
      "\<forall>n' X'. content_first_at html n' X' \<longrightarrow> n \<le> n'"
    by (elim exE conjE)
  then have "content_first_at html n X \<and> (\<forall>n' X'. content_first_at html n' X' \<longrightarrow> n \<le> n')"
    using gx by simp
  then have "\<exists>n. content_first_at html n X \<and> (\<forall>n' X'. content_first_at html n' X' \<longrightarrow> n \<le> n')"
    by (intro exI)
  then show ?thesis unfolding og_image_selected_def using no by simp
next
  case (Some g)
  then have gx: "g = Some X" using assms by (simp add: extractOgImage_def)
  from search_property_first [OF Some]
  obtain n m Y where "g = Some Y" "property_first_at html n m Y"
      "\<forall>n' m' X'. property_first_at html n' m' X' \<longrightarrow> n < n' \<or> (n' = n \<and> m' \<le> m)"
    by (elim exE conjE)
  then have "property_first_at html n m X \<and>
      (\<forall>n' m' X'. property_first_at html n' m' X' \<longrightarrow> n < n' \<or> (n' = n \<and> m' \<le> m))"
    using gx by simp
  then have "\<exists>n m. property_first_at html n m X \<and>
      (\<forall>n' m' X'. property_first_at html n' m' X' \<longrightarrow> n < n' \<or> (n' = n \<and> m' \<le> m))"
    by (intro exI)
  then show ?thesis unfolding og_image_selected_def by simp
qed

lemma og_image_selected_pattern: "og_image_selected html X \<Longrightarrow> og_image_pattern html X"
  unfolding og_image_selected_def og_image_pattern_def by blast

lemma extractOgImage_sound: "extractOgImage html = Some X \<Longrightarrow> og_image_pattern html X"
  using extractOgImage_selected og_image_selected_pattern by blast

lemma extractOgImage_complete:
  assumes "og_image_pattern html X"
  shows "\<exists>Y. extractOgImage html = Some Y"
proof (cases "rx_search re_property_content html")
  case None
  have "\<forall>n m. \<not> property_first_at html n m X"
    using property_first_found None by blast
  then obtain n where "content_first_at html n X"
    using assms unfolding og_image_pattern_def by blast
  then obtain g where g: "rx_search re_content_property html = Some g"
    using content_first_found by blast
  from search_content_first [OF g] obtain Y where "g = Some Y" by (elim exE conjE)
  then show ?thesis using None g by (simp add: extractOgImage_def)
next
  case (Some g)
  from search_property_first [OF Some] obtain Y where "g = Some Y" by (elim exE conjE)
  then show ?thesis using Some by (simp add: extractOgImage_def)
qed

lemma og_image_selected_unique:
  assumes "og_image_selected html X" "og_image_selected html Y"
  shows "X = Y"
proof -
  consider (pp) n m n' m' where "property_first_at html n m X"
      "\<forall>a b Z. property_first_at html a b Z \<longrightarrow> n < a \<or> (a = n \<and> b \<le> m)"
      "property_first_at html n' m' Y"
      "\<forall>a b Z. property_first_at html a b Z \<longrightarrow> n' < a \<or> (a = n' \<and> b \<le> m')"
    | (cc) n n' where "content_first_at html n X"
      "\<forall>a Z. content_first_at html a Z \<longrightarrow> n \<le> a"
      "content_first_at html n' Y"
      "\<forall>a Z. content_first_at html a Z \<longrightarrow> n' \<le> a"
    using assms unfolding og_image_selected_def by blast
  then show ?thesis
  proof cases
    case pp
    have "n' < n \<or> (n = n' \<and> m \<le> m')" using pp(1,4) by blast
    moreover have "n < n' \<or> (n' = n \<and> m' \<le> m)" using pp(2,3) by blast
    ultimately have "n = n' \<and> m = m'" by auto
    then show ?thesis
      using property_first_at_content [OF pp(1)] property_first_at_content [OF pp(3)] by simp
  next
    case cc
    have "n' \<le> n" using cc(1,4) by blast
    moreover have "n \<le> n'" using cc(2,3) by blast
    ultimately have "n = n'" by simp
    then show ?thesis
      using content_first_at_content [OF cc(1)] content_first_at_content [OF cc(3)] by simp
  qed
qed

lemma extractOgImage_iff_selected:
  "extractOgImage html = Some X \<longleftrightarrow> og_image_selected html X"
proof
  assume "extractOgImage html = Some X"
  then show "og_image_selected html X" by (rule extractOgImage_selected)
next
  assume s: "og_image_selected html X"
  then have "og_image_pattern html X" by (rule og_image_selected_pattern)
  then obtain Y where y: "extractOgImage html = Some Y"
    using extractOgImage_complete by blast
  then have "og_image_selected html Y" by (rule extractOgImage_selected)
  then have "X = Y" using s og_image_selected_unique by blast
  then show "extractOgImage html = Some X" using y by simp
qed

lemma og_image_pattern_nonempty: "og_image_pattern html X \<Longrightarrow> X \<noteq> [] \<and> html \<noteq> []"
  by (auto simp: og_image_pattern_def property_first_at_def content_first_at_def)

lemma extractOgImage_nonempty: "extractOgImage html = Some X \<Longrightarrow> X \<noteq> [] \<and> html \<noteq> []"
  using extractOgImage_sound og_image_pattern_nonempty by blast

section \<open>Validation\<close>

lemma accepted_url:
  "accepted pf req parsed \<Longrightarrow>
     \<exists>u. url_param req = Some u \<and> u \<noteq> [] \<and> new_URL pf u = Some parsed \<and>
         hostname parsed = ''postimg.cc''"
  by (auto simp: accepted_def split: option.splits)

lemma GET_strict_calls_accepted:
  "0 < fetch_calls (GET_strict pf req) \<Longrightarrow> \<exists>parsed. accepted pf req parsed"
  by (auto simp: GET_strict_def accepted_def returns_at_def split: option.splits if_splits)

lemma GET_image_calls_accepted:
  "0 < fetch_calls (fst (GET_image pf req c)) \<Longrightarrow> \<exists>parsed. accepted pf req parsed"
  by (auto simp: GET_image_def accepted_def returns_at_def split: option.splits if_splits)

section \<open>The pipelines\<close>

declare attempts.simps [simp del]

lemma GET_strict_accepted:
  "accepted pf req parsed \<Longrightarrow> GET_strict pf req = strict_pipeline pf req parsed"
  by (auto simp: accepted_def GET_strict_def split: option.splits)

lemma GET_image_accepted:
  "accepted pf req parsed \<Longrightarrow> GET_image pf req c = image_pipeline pf req parsed c"
  by (auto simp: accepted_def GET_image_def split: option.splits)

lemma attempts_second:
  "attempts req u ctl (Suc 0) t =
     (case attempt_try req u ctl (Suc 0) t of
        None \<Rightarrow> (t, 2, LoopHangs)
      | Some (t', Inr html) \<Rightarrow> (t', 2, LoopDone html)
      | Some (t', Inl e) \<Rightarrow>
          if isAbortLikeError e then (t', 2, LoopReturn cancelled) else (t', 2, LoopThrow e))"
  by (subst attempts.simps) (simp add: cancelled_def split: option.splits sum.splits)

lemma attempts_first:
  "attempts req u ctl 0 t =
     (case attempt_try req u ctl 0 t of
        None \<Rightarrow> (t, 1, LoopHangs)
      | Some (t', Inr html) \<Rightarrow> (t', 1, LoopDone html)
      | Some (t', Inl e) \<Rightarrow>
          if isAbortLikeError e then (t', 1, LoopReturn cancelled)
          else attempts req u ctl (Suc 0) (t' + 150))"
  by (subst attempts.simps) (simp add: cancelled_def split: option.splits sum.splits)

text \<open>A fetch or a body read that rejects with an abort-like error, or is aborted.\<close>

lemma work_fetch_abort_like:
  assumes "isAbortLikeError e" and "fetch_env req (href parsed) 0 = After d (Rejects e)"
  shows "\<exists>t. work pf req parsed ctl = Some (t, Null 204)"
  using assms
  by (cases ctl) (auto simp: work_def work_try_def isAbortLikeError_AbortError)

lemma work_body_abort_like:
  assumes "isAbortLikeError e"
    and "fetch_env req (href parsed) 0 = After d (Resolves (Upstream True (After d' (Rejects e))))"
  shows "\<exists>t. work pf req parsed ctl = Some (t, Null 204)"
  using assms
  by (cases ctl) (auto simp: work_def work_try_def isAbortLikeError_AbortError)

lemma strict_pipeline_204:
  assumes "\<And>a. \<exists>t. work pf req parsed (Some a) = Some (t, Null 204)"
  shows "result (strict_pipeline pf req parsed) = Returns (Null 204) \<and>
    fetch_calls (strict_pipeline pf req parsed) \<le> 1"
proof (cases "signal req")
  case Aborted
  then show ?thesis by (simp add: strict_pipeline_def returns_at_def)
next
  case (AbortsAt a)
  obtain t where "work pf req parsed (Some (min a 8000)) = Some (t, Null 204)"
    using assms by blast
  then show ?thesis using AbortsAt by (simp add: strict_pipeline_def returns_at_def)
next
  case NotAborted
  obtain t where "work pf req parsed (Some 8000) = Some (t, Null 204)"
    using assms by blast
  then show ?thesis using NotAborted by (simp add: strict_pipeline_def returns_at_def)
qed

lemma strict_abort_like:
  assumes "accepted pf req parsed" and "isAbortLikeError e"
    and "fetch_env req (href parsed) 0 = After d (Rejects e) \<or>
         fetch_env req (href parsed) 0 = After d (Resolves (Upstream True (After d' (Rejects e))))"
  shows "result (GET_strict pf req) = Returns (Null 204) \<and> fetch_calls (GET_strict pf req) \<le> 1"
proof -
  have "\<And>a. \<exists>t. work pf req parsed (Some a) = Some (t, Null 204)"
    using assms(2,3) work_fetch_abort_like work_body_abort_like by blast
  then show ?thesis
    using strict_pipeline_204 GET_strict_accepted [OF assms(1)] by simp
qed

text \<open>The always-an-image handler: an attempt that ends in an abort-like rejection.\<close>

lemma attempt_try_abort_like:
  assumes "isAbortLikeError e"
    and "fetch_env req u n = After d (Rejects e) \<or>
         fetch_env req u n = After d (Resolves (Upstream True (After d' (Rejects e))))"
  shows "\<exists>t' e'. attempt_try req u ctl n t = Some (t', Inl e') \<and> isAbortLikeError e'"
proof (cases ctl)
  case None
  then show ?thesis using assms by (auto simp: attempt_try_def)
next
  case (Some a)
  then show ?thesis using assms
    by (auto simp: attempt_try_def isAbortLikeError_AbortError)
qed

lemma image_pipeline_return:
  assumes "cache_hit req c (href parsed) = None"
    and "signal req = Aborted \<or>
      (\<exists>t. attempts req (href parsed) (case signal req of AbortsAt a \<Rightarrow> Some a | _ \<Rightarrow> None) 0 0 =
         (t, n, LoopReturn r))"
  shows "\<exists>t. image_pipeline pf req parsed c =
     (returns_at t (if signal req = Aborted then 0 else n) (if signal req = Aborted then cancelled else r), c)"
  using assms by (auto simp: image_pipeline_def resolve_try_def cancelled_def)

lemma image_first_abort_like:
  assumes "accepted pf req parsed" and "cache_hit req c (href parsed) = None"
    and "isAbortLikeError e"
    and "fetch_env req (href parsed) 0 = After d (Rejects e) \<or>
         fetch_env req (href parsed) 0 = After d (Resolves (Upstream True (After d' (Rejects e))))"
  shows "result (fst (GET_image pf req c)) = Returns cancelled \<and>
    fetch_calls (fst (GET_image pf req c)) \<le> 1 \<and> snd (GET_image pf req c) = c"
proof (cases "signal req = Aborted")
  case True
  then obtain t where "image_pipeline pf req parsed c = (returns_at t 0 cancelled, c)"
    using image_pipeline_return [OF assms(2), of n] by auto
  then show ?thesis using GET_image_accepted [OF assms(1)] by (simp add: returns_at_def)
next
  case False
  let ?ctl = "case signal req of AbortsAt a \<Rightarrow> Some a | _ \<Rightarrow> None"
  obtain t' e' where "attempt_try req (href parsed) ?ctl 0 0 = Some (t', Inl e')"
    and "isAbortLikeError e'"
    using attempt_try_abort_like [OF assms(3,4)] by blast
  then have "attempts req (href parsed) ?ctl 0 0 = (t', 1, LoopReturn cancelled)"
    by (simp add: attempts_first)
  then obtain t where "image_pipeline pf req parsed c = (returns_at t 1 cancelled, c)"
    using image_pipeline_return [OF assms(2), of 1 cancelled] False by auto
  then show ?thesis using GET_image_accepted [OF assms(1)] by (simp add: returns_at_def)
qed

lemma cancelled_neq_unavailable: "cancelled \<noteq> unavailable"
  by (simp add: cancelled_def unavailable_def imageFallbackResponse_def svgPlaceholder_def)

lemma attempt_try_rejects:
  assumes "fetch_env req u n = After d (Rejects e) \<or>
           fetch_env req u n = After d (Resolves (Upstream True (After d' (Rejects e))))"
  shows "\<exists>t' e'. attempt_try req u ctl n t = Some (t', Inl e')"
  using assms by (cases ctl) (auto simp: attempt_try_def)

lemma attempts_second_abort_like:
  assumes "fetch_env req u 0 = After d0 (Rejects e0) \<or>
           fetch_env req u 0 = After d0 (Resolves (Upstream True (After d0' (Rejects e0))))"
    and "isAbortLikeError e"
    and "fetch_env req u (Suc 0) = After d (Rejects e) \<or>
         fetch_env req u (Suc 0) = After d (Resolves (Upstream True (After d' (Rejects e))))"
  shows "\<exists>t n. attempts req u ctl 0 0 = (t, n, LoopReturn cancelled) \<and> n \<le> 2"
proof -
  obtain t0 e0' where a0: "attempt_try req u ctl 0 0 = Some (t0, Inl e0')"
    using attempt_try_rejects [OF assms(1)] by blast
  obtain t1 e1 where a1: "attempt_try req u ctl (Suc 0) (t0 + 150) = Some (t1, Inl e1)"
    and "isAbortLikeError e1"
    using attempt_try_abort_like [OF assms(2,3)] by blast
  then have "attempts req u ctl (Suc 0) (t0 + 150) = (t1, 2, LoopReturn cancelled)"
    by (simp add: attempts_second)
  then show ?thesis using a0 by (simp add: attempts_first)
qed

lemma image_second_abort_like:
  assumes "accepted pf req parsed" and "cache_hit req c (href parsed) = None"
    and "fetch_env req (href parsed) 0 = After d0 (Rejects e0) \<or>
         fetch_env req (href parsed) 0 = After d0 (Resolves (Upstream True (After d0' (Rejects e0))))"
    and "isAbortLikeError e"
    and "fetch_env req (href parsed) (Suc 0) = After d (Rejects e) \<or>
         fetch_env req (href parsed) (Suc 0) = After d (Resolves (Upstream True (After d' (Rejects e))))"
  shows "result (fst (GET_image pf req c)) = Returns cancelled \<and>
    fetch_calls (fst (GET_image pf req c)) \<le> 2 \<and> snd (GET_image pf req c) = c"
proof -
  let ?ctl = "case signal req of AbortsAt a \<Rightarrow> Some a | _ \<Rightarrow> None"
  obtain t n where l: "attempts req (href parsed) ?ctl 0 0 = (t, n, LoopReturn cancelled)"
    and n: "n \<le> 2"
    using attempts_second_abort_like [OF assms(3,4,5)] by blast
  then obtain t' where "image_pipeline pf req parsed c =
      (returns_at t' (if signal req = Aborted then 0 else n)
         (if signal req = Aborted then cancelled else cancelled), c)"
    using image_pipeline_return [OF assms(2), of n cancelled] by blast
  then show ?thesis using GET_image_accepted [OF assms(1)] n by (simp add: returns_at_def)
qed

text \<open>An abort-like error thrown by the redirect constructor inside the pipeline.\<close>

lemma strict_redirect_abort_like:
  assumes "accepted pf req parsed" and "isAbortLikeError e"
    and "fetch_env req (href parsed) 0 = After d (Resolves (Upstream True (After d' (Resolves html))))"
    and "extractOgImage html = Some i" and "redirect_throws pf i = Some e"
  shows "result (GET_strict pf req) = Returns (Null 204)"
proof -
  have "i \<noteq> []" using assms(4) extractOgImage_nonempty by blast
  then have "\<And>a. \<exists>t. work pf req parsed (Some a) = Some (t, Null 204)"
    using assms(2-)
    by (auto simp: work_def work_try_def NextResponse_redirect_def isAbortLikeError_AbortError)
  then show ?thesis
    using strict_pipeline_204 GET_strict_accepted [OF assms(1)] by simp
qed

lemma image_redirect_abort_like:
  assumes "accepted pf req parsed" and "cache_hit req c (href parsed) = None"
    and "isAbortLikeError e"
    and "fetch_env req (href parsed) 0 = After d (Resolves (Upstream True (After d' (Resolves html))))"
    and "extractOgImage html = Some i" and "redirect_throws pf i = Some e"
  shows "result (fst (GET_image pf req c)) = Returns cancelled"
proof -
  have "i \<noteq> [] \<and> html \<noteq> []" using assms(5) extractOgImage_nonempty by blast
  then have "result (fst (image_pipeline pf req parsed c)) = Returns cancelled"
    using assms(2-)
    by (cases "signal req")
       (auto simp: image_pipeline_def resolve_try_def attempts_first attempt_try_def
          NextResponse_redirect_def isAbortLikeError_AbortError cancelled_def returns_at_def)
  then show ?thesis using GET_image_accepted [OF assms(1)] by simp
qed

section \<open>The retry\<close>

lemma await_in_time:
  "(\<forall>a. ctl = Some a \<longrightarrow> t + d < a) \<Longrightarrow> await_abortable t ctl (After d r) = Some (t + d, r)"
  by (cases ctl) auto

lemma not_aborted_by_controller:
  "not_aborted_by req t \<Longrightarrow>
     \<forall>a. (case signal req of AbortsAt a \<Rightarrow> Some a | _ \<Rightarrow> None) = Some a \<longrightarrow> t < a"
  by (auto simp: not_aborted_by_def split: inbound.splits)

lemma attempts_second_calls: "fst (snd (attempts req u ctl (Suc 0) t)) = 2"
  by (simp add: attempts_second split: option.splits sum.splits prod.splits)

lemma attempts_calls: "fst (snd (attempts req u ctl 0 t)) \<le> 2"
  by (simp add: attempts_first attempts_second_calls split: option.splits sum.splits prod.splits)

lemma resolve_try_calls: "fst (snd (resolve_try pf req u c)) \<le> 2"
proof (cases "signal req = Aborted")
  case True
  then show ?thesis by (simp add: resolve_try_def)
next
  case False
  let ?l = "attempts req u (case signal req of AbortsAt a \<Rightarrow> Some a | _ \<Rightarrow> None) 0 0"
  obtain t n x where l: "?l = (t, n, x)" by (cases ?l) auto
  then have n: "n \<le> 2"
    using attempts_calls [of req u "case signal req of AbortsAt a \<Rightarrow> Some a | _ \<Rightarrow> None" 0]
    by simp
  have "fst (snd (resolve_try pf req u c)) = n"
    using False l
    by (cases x) (simp_all add: resolve_try_def split: option.splits)
  then show ?thesis using n by simp
qed

lemma image_pipeline_calls: "fetch_calls (fst (image_pipeline pf req parsed c)) \<le> 2"
proof (cases "cache_hit req c (href parsed)")
  case (Some cached)
  then show ?thesis
    by (simp add: image_pipeline_def returns_at_def split: sum.splits)
next
  case None
  obtain t n r c' where r: "resolve_try pf req (href parsed) c = (t, n, r, c')"
    by (cases "resolve_try pf req (href parsed) c") auto
  then have "n \<le> 2" using resolve_try_calls [of pf req "href parsed" c] by simp
  then show ?thesis using None r
    by (simp add: image_pipeline_def returns_at_def split: option.splits sum.splits)
qed

lemma image_calls_le_2: "fetch_calls (fst (GET_image pf req c)) \<le> 2"
  using image_pipeline_calls
  by (simp add: GET_image_def returns_at_def split: option.splits)

lemma image_retry_success:
  assumes "accepted pf req parsed" and "cache_hit req c (href parsed) = None"
    and "\<not> isAbortLikeError e0"
    and "fetch_env req (href parsed) 0 = After d0 (Rejects e0)"
    and "fetch_env req (href parsed) 1 = After d1 (Resolves (Upstream True (After d2 (Resolves html))))"
    and "extractOgImage html = Some i" and "redirect_throws pf i = None"
    and "not_aborted_by req (d0 + 150 + d1 + d2)"
  shows "GET_image pf req c =
    (returns_at (d0 + 150 + d1 + d2) 2 (Redirect i 302),
     c(href parsed \<mapsto> \<lparr>img = i, ts = now_store req\<rparr>))"
proof -
  let ?ctl = "case signal req of AbortsAt a \<Rightarrow> Some a | _ \<Rightarrow> None"
  have ne: "i \<noteq> [] \<and> html \<noteq> []" using assms(6) extractOgImage_nonempty by blast
  have na: "signal req \<noteq> Aborted" using assms(8) by (auto simp: not_aborted_by_def)
  have c: "\<forall>a. ?ctl = Some a \<longrightarrow> d0 + 150 + d1 + d2 < a"
    using not_aborted_by_controller [OF assms(8)] .
  have "await_abortable 0 ?ctl (After d0 (Rejects e0) :: upstream promise) = Some (0 + d0, Rejects e0)"
    using c by (intro await_in_time) auto
  then have 0: "attempt_try req (href parsed) ?ctl 0 0 = Some (d0, Inl e0)"
    using assms(4) by (simp add: attempt_try_def)
  have "await_abortable (d0 + 150) ?ctl
          (After d1 (Resolves (Upstream True (After d2 (Resolves html)))))
        = Some (d0 + 150 + d1, Resolves (Upstream True (After d2 (Resolves html))))"
    using c by (intro await_in_time) auto
  moreover have "await_abortable (d0 + 150 + d1) ?ctl (After d2 (Resolves html))
        = Some (d0 + 150 + d1 + d2, Resolves html)"
    using c by (intro await_in_time) auto
  ultimately have 1: "attempt_try req (href parsed) ?ctl (Suc 0) (d0 + 150) =
      Some (d0 + 150 + d1 + d2, Inr (Some html))"
    using assms(5) by (simp add: attempt_try_def)
  have "attempts req (href parsed) ?ctl 0 0 = (d0 + 150 + d1 + d2, 2, LoopDone (Some html))"
    using 0 1 assms(3) by (simp add: attempts_first attempts_second)
  then have "image_pipeline pf req parsed c =
      (returns_at (d0 + 150 + d1 + d2) 2 (Redirect i 302),
       c(href parsed \<mapsto> \<lparr>img = i, ts = now_store req\<rparr>))"
    using assms(2,6,7) ne na
    by (simp add: image_pipeline_def resolve_try_def NextResponse_redirect_def)
  then show ?thesis using GET_image_accepted [OF assms(1)] by simp
qed

lemma image_retry_failure:
  assumes "accepted pf req parsed" and "cache_hit req c (href parsed) = None"
    and "\<not> isAbortLikeError e0"
    and "fetch_env req (href parsed) 0 = After d0 (Rejects e0)"
    and "fetch_env req (href parsed) 1 = After d1 (Rejects e1)"
    and "\<not> isAbortLikeError e1"
    and "not_aborted_by req (d0 + 150 + d1)"
  shows "GET_image pf req c = (returns_at (d0 + 150 + d1) 2 unavailable, c)"
proof -
  let ?ctl = "case signal req of AbortsAt a \<Rightarrow> Some a | _ \<Rightarrow> None"
  have na: "signal req \<noteq> Aborted" using assms(7) by (auto simp: not_aborted_by_def)
  have c: "\<forall>a. ?ctl = Some a \<longrightarrow> d0 + 150 + d1 < a"
    using not_aborted_by_controller [OF assms(7)] .
  have "await_abortable 0 ?ctl (After d0 (Rejects e0) :: upstream promise) = Some (0 + d0, Rejects e0)"
    using c by (intro await_in_time) auto
  then have 0: "attempt_try req (href parsed) ?ctl 0 0 = Some (d0, Inl e0)"
    using assms(4) by (simp add: attempt_try_def)
  have "await_abortable (d0 + 150) ?ctl (After d1 (Rejects e1) :: upstream promise)
        = Some (d0 + 150 + d1, Rejects e1)"
    using c by (intro await_in_time) auto
  then have 1: "attempt_try req (href parsed) ?ctl (Suc 0) (d0 + 150) = Some (d0 + 150 + d1, Inl e1)"
    using assms(5) by (simp add: attempt_try_def)
  have "attempts req (href parsed) ?ctl 0 0 = (d0 + 150 + d1, 2, LoopThrow e1)"
    using 0 1 assms(3,6) by (simp add: attempts_first attempts_second)
  then have "image_pipeline pf req parsed c = (returns_at (d0 + 150 + d1) 2 unavailable, c)"
    using assms(2,6) na
    by (simp add: image_pipeline_def resolve_try_def unavailable_def)
  then show ?thesis using GET_image_accepted [OF assms(1)] by simp
qed

lemma strict_single_attempt:
  assumes "accepted pf req parsed" and "\<not> isAbortLikeError e0"
    and "fetch_env req (href parsed) 0 = After d0 (Rejects e0)"
    and "d0 < 8000" and "not_aborted_by req d0"
  shows "GET_strict pf req = returns_at d0 1 (Json ''Unexpected error fetching postimg'' 500)"
proof -
  have "strict_pipeline pf req parsed =
      returns_at d0 1 (Json ''Unexpected error fetching postimg'' 500)"
    using assms(2-)
    by (cases "signal req")
       (auto simp: strict_pipeline_def work_def work_try_def not_aborted_by_def)
  then show ?thesis using GET_strict_accepted [OF assms(1)] by simp
qed

section \<open>Deadlines\<close>

lemma await_deadline:
  "\<exists>t' r. await_abortable t (Some a) p = Some (t', r) \<and>
     (t' < a \<or> (r = Rejects AbortError \<and> t' = max t a))"
  by (cases p) auto

lemma work_try_deadline:
  "\<exists>t r. work_try pf req parsed (Some a) = Some (t, r) \<and>
     (t < a \<or> (t = a \<and> (r = Inl AbortError \<or> r = Inr (Null 204))))"
proof -
  obtain t1 r1 where f: "await_abortable 0 (Some a) (fetch_env req (href parsed) 0) = Some (t1, r1)"
    and f': "t1 < a \<or> (r1 = Rejects AbortError \<and> t1 = max 0 a)"
    using await_deadline by blast
  show ?thesis
  proof (cases r1)
    case (Rejects e)
    then show ?thesis using f f' by (auto simp: work_try_def)
  next
    case (Resolves up)
    then have t1: "t1 < a" using f' by auto
    obtain ok body where up: "up = Upstream ok body" by (cases up)
    show ?thesis
    proof (cases ok)
      case False
      then show ?thesis using f Resolves up t1 by (simp add: work_try_def)
    next
      case True
      obtain t2 r2 where b: "await_abortable t1 (Some a) body = Some (t2, r2)"
        and b': "t2 < a \<or> (r2 = Rejects AbortError \<and> t2 = max t1 a)"
        using await_deadline by blast
      show ?thesis
      proof (cases r2)
        case (Rejects e)
        then show ?thesis using f Resolves up True b b' t1
          by (auto simp: work_try_def isAbortLikeError_AbortError)
      next
        case (Resolves html)
        then have "t2 < a" using b' by auto
        then show ?thesis using f \<open>r1 = Resolves up\<close> up True b Resolves
          by (simp add: work_try_def split: option.splits)
      qed
    qed
  qed
qed

lemma work_deadline:
  "\<exists>t r. work pf req parsed (Some a) = Some (t, r) \<and> (t < a \<or> (t = a \<and> r = Null 204))"
proof -
  obtain t r where w: "work_try pf req parsed (Some a) = Some (t, r)"
    and w': "t < a \<or> (t = a \<and> (r = Inl AbortError \<or> r = Inr (Null 204)))"
    using work_try_deadline by blast
  then show ?thesis
    by (cases r) (auto simp: work_def isAbortLikeError_AbortError)
qed

lemma strict_pipeline_deadline:
  "(\<exists>r. result (strict_pipeline pf req parsed) = Returns r) \<and>
   finished_at (strict_pipeline pf req parsed) \<le> deadline req \<and>
   (finished_at (strict_pipeline pf req parsed) = deadline req \<longrightarrow>
      result (strict_pipeline pf req parsed) = Returns (Null 204))"
proof (cases "signal req")
  case Aborted
  then show ?thesis by (simp add: strict_pipeline_def deadline_def returns_at_def)
next
  case (AbortsAt a)
  obtain t r where "work pf req parsed (Some (min a 8000)) = Some (t, r)"
    and "t < min a 8000 \<or> (t = min a 8000 \<and> r = Null 204)"
    using work_deadline by blast
  then show ?thesis using AbortsAt
    by (auto simp: strict_pipeline_def deadline_def returns_at_def)
next
  case NotAborted
  obtain t r where "work pf req parsed (Some 8000) = Some (t, r)"
    and "t < 8000 \<or> (t = 8000 \<and> r = Null 204)"
    using work_deadline by blast
  then show ?thesis using NotAborted
    by (auto simp: strict_pipeline_def deadline_def returns_at_def)
qed

text \<open>The always-an-image handler under an inbound abort at \<open>a\<close>.\<close>

lemma attempt_try_aborting:
  "\<exists>t' x. attempt_try req u (Some a) n t = Some (t', x) \<and>
     (t' < a \<or> (x = Inl AbortError \<and> t' = max t a))"
proof -
  obtain t1 r1 where f: "await_abortable t (Some a) (fetch_env req u n) = Some (t1, r1)"
    and f': "t1 < a \<or> (r1 = Rejects AbortError \<and> t1 = max t a)"
    using await_deadline by blast
  show ?thesis
  proof (cases r1)
    case (Rejects e)
    then show ?thesis using f f' by (auto simp: attempt_try_def)
  next
    case (Resolves up)
    then have t1: "t1 < a" using f' by auto
    obtain ok body where up: "up = Upstream ok body" by (cases up)
    show ?thesis
    proof (cases ok)
      case False
      then show ?thesis using f Resolves up t1 by (simp add: attempt_try_def)
    next
      case True
      obtain t2 r2 where b: "await_abortable t1 (Some a) body = Some (t2, r2)"
        and b': "t2 < a \<or> (r2 = Rejects AbortError \<and> t2 = max t1 a)"
        using await_deadline by blast
      have "max t1 a = max t a" using t1 f f' by (cases "fetch_env req u n") (auto split: if_splits)
      then show ?thesis using f Resolves up True b b' t1
        by (cases r2) (auto simp: attempt_try_def)
    qed
  qed
qed

lemma attempts_second_aborting:
  "\<exists>t' x. attempts req u (Some a) (Suc 0) t = (t', 2, x) \<and> x \<noteq> LoopHangs \<and>
     (t' < a \<or> (x = LoopReturn cancelled \<and> t' = max t a))"
proof -
  obtain t' x where "attempt_try req u (Some a) (Suc 0) t = Some (t', x)"
    and "t' < a \<or> (x = Inl AbortError \<and> t' = max t a)"
    using attempt_try_aborting by blast
  then show ?thesis
    by (cases x) (auto simp: attempts_second isAbortLikeError_AbortError)
qed

lemma attempts_first_aborting:
  "\<exists>t' n x. attempts req u (Some a) 0 0 = (t', n, x) \<and> x \<noteq> LoopHangs \<and>
     (t' < a \<or> (x = LoopReturn cancelled \<and> t' \<le> a + 150))"
proof -
  obtain t0 x0 where a0: "attempt_try req u (Some a) 0 0 = Some (t0, x0)"
    and b0: "t0 < a \<or> (x0 = Inl AbortError \<and> t0 = max 0 a)"
    using attempt_try_aborting by blast
  show ?thesis
  proof (cases x0)
    case (Inr html)
    then show ?thesis using a0 b0 by (auto simp: attempts_first)
  next
    case (Inl e)
    show ?thesis
    proof (cases "isAbortLikeError e")
      case True
      then show ?thesis using a0 b0 Inl by (auto simp: attempts_first)
    next
      case False
      then have t0: "t0 < a" using b0 Inl by (auto simp: isAbortLikeError_AbortError)
      obtain t' x where "attempts req u (Some a) (Suc 0) (t0 + 150) = (t', 2, x)"
        and "x \<noteq> LoopHangs" and "t' < a \<or> (x = LoopReturn cancelled \<and> t' = max (t0 + 150) a)"
        using attempts_second_aborting by blast
      then show ?thesis using a0 Inl False t0 by (auto simp: attempts_first)
    qed
  qed
qed

lemma image_pipeline_aborting:
  assumes "cache_hit req c (href parsed) = None" and "signal req = AbortsAt a"
  shows "(\<exists>r. result (fst (image_pipeline pf req parsed c)) = Returns r) \<and>
    (finished_at (fst (image_pipeline pf req parsed c)) < a \<or>
     result (fst (image_pipeline pf req parsed c)) = Returns cancelled \<and>
     finished_at (fst (image_pipeline pf req parsed c)) \<le> a + 150)"
proof -
  obtain t n x where l: "attempts req (href parsed) (Some a) 0 0 = (t, n, x)"
    and h: "x \<noteq> LoopHangs" and b: "t < a \<or> (x = LoopReturn cancelled \<and> t \<le> a + 150)"
    using attempts_first_aborting by blast
  show ?thesis
  proof (cases x)
    case (LoopReturn r)
    then show ?thesis using assms l b
      by (auto simp: image_pipeline_def resolve_try_def returns_at_def)
  next
    case (LoopThrow e)
    then show ?thesis using assms l b
      by (auto simp: image_pipeline_def resolve_try_def returns_at_def)
  next
    case (LoopDone html)
    then have "t < a" using b by auto
    then show ?thesis using assms l LoopDone
      by (auto simp: image_pipeline_def resolve_try_def returns_at_def NextResponse_redirect_def
            split: option.splits)
  next
    case LoopHangs
    then show ?thesis using h by simp
  qed
qed

section \<open>The cache\<close>

lemma attempts_second_returns:
  "attempts req u ctl (Suc 0) t = (t', n, LoopReturn r) \<Longrightarrow> r = cancelled"
  by (auto simp: attempts_second split: option.splits sum.splits prod.splits if_splits)

lemma attempts_returns:
  "attempts req u ctl 0 t = (t', n, LoopReturn r) \<Longrightarrow> r = cancelled"
  using attempts_second_returns
  by (auto simp: attempts_first split: option.splits sum.splits prod.splits if_splits)

lemma attempts_calls_ge: "1 \<le> fst (snd (attempts req u ctl 0 t))"
  by (simp add: attempts_first attempts_second_calls split: option.splits sum.splits prod.splits)

text \<open>The outer \<open>try\<close> block reads the cache nowhere, and writes it at one place.\<close>

lemma resolve_try_shape:
  "\<exists>t n r. (\<forall>c. resolve_try pf req u c = (t, n, r, c)) \<or>
     (\<exists>i. r = Some (NextResponse_redirect pf i) \<and>
        (\<forall>c. resolve_try pf req u c = (t, n, r, c(u \<mapsto> \<lparr>img = i, ts = now_store req\<rparr>))))"
proof (cases "signal req = Aborted")
  case True
  then have "\<forall>c. resolve_try pf req u c = (0, 0, Some (Inr cancelled), c)"
    by (simp add: resolve_try_def cancelled_def)
  then show ?thesis by blast
next
  case False
  let ?l = "attempts req u (case signal req of AbortsAt a \<Rightarrow> Some a | _ \<Rightarrow> None) 0 0"
  obtain t n x where l: "?l = (t, n, x)" by (cases ?l) auto
  show ?thesis
  proof (cases x)
    case (LoopReturn r)
    then have "\<forall>c. resolve_try pf req u c = (t, n, Some (Inr r), c)"
      using False l by (simp add: resolve_try_def)
    then show ?thesis by blast
  next
    case (LoopThrow e)
    then have "\<forall>c. resolve_try pf req u c = (t, n, Some (Inl e), c)"
      using False l by (simp add: resolve_try_def)
    then show ?thesis by blast
  next
    case LoopHangs
    then have "\<forall>c. resolve_try pf req u c = (t, n, None, c)"
      using False l by (simp add: resolve_try_def)
    then show ?thesis by blast
  next
    case (LoopDone h)
    show ?thesis
    proof (cases "\<exists>html i. h = Some html \<and> html \<noteq> [] \<and> extractOgImage html = Some i \<and> i \<noteq> []")
      case True
      then obtain html i where "h = Some html" "html \<noteq> []" "extractOgImage html = Some i" "i \<noteq> []"
        by blast
      then have "\<forall>c. resolve_try pf req u c =
          (t, n, Some (NextResponse_redirect pf i), c(u \<mapsto> \<lparr>img = i, ts = now_store req\<rparr>))"
        using False l LoopDone by (simp add: resolve_try_def)
      then show ?thesis by blast
    next
      case no: False
      have "\<forall>c. resolve_try pf req u c = (t, n, Some (Inr unavailable), c)"
        using False l LoopDone no
        by (cases h) (auto simp: resolve_try_def unavailable_def split: option.splits)
      then show ?thesis by blast
    qed
  qed
qed

lemma resolve_try_returns:
  assumes "resolve_try pf req u c = (t, n, Some (Inr (Redirect i k)), c')"
  shows "k = 302 \<and> redirect_throws pf i = None \<and> c' = c(u \<mapsto> \<lparr>img = i, ts = now_store req\<rparr>)"
proof (cases "signal req = Aborted")
  case True
  then show ?thesis using assms
    by (simp add: resolve_try_def imageFallbackResponse_def)
next
  case False
  let ?l = "attempts req u (case signal req of AbortsAt a \<Rightarrow> Some a | _ \<Rightarrow> None) 0 0"
  obtain t0 n0 x where l: "?l = (t0, n0, x)" by (cases ?l) auto
  show ?thesis
  proof (cases x)
    case (LoopReturn r)
    then have "r = cancelled" using l attempts_returns by blast
    then show ?thesis using assms False l LoopReturn
      by (simp add: resolve_try_def cancelled_def imageFallbackResponse_def)
  next
    case (LoopThrow e)
    then show ?thesis using assms False l by (simp add: resolve_try_def)
  next
    case (LoopDone h)
    then show ?thesis using assms False l
      by (auto simp: resolve_try_def imageFallbackResponse_def NextResponse_redirect_def
            split: option.splits if_splits)
  next
    case LoopHangs
    then show ?thesis using assms False l by (simp add: resolve_try_def)
  qed
qed

lemma image_pipeline_hit:
  assumes "c (href parsed) = Some e" and "now_check req - ts e < CACHE_TTL_MS"
  shows "image_pipeline pf req parsed c =
    (case redirect_throws pf (img e) of
       None \<Rightarrow> (returns_at 0 0 (Redirect (img e) 302), c)
     | Some x \<Rightarrow> (\<lparr>result = Escapes x, finished_at = 0, fetch_calls = 0\<rparr>, c))"
  using assms
  by (simp add: image_pipeline_def cache_hit_def NextResponse_redirect_def split: option.splits)

lemma image_pipeline_stored:
  assumes "cache_hit req c (href parsed) = None"
    and "result (fst (image_pipeline pf req parsed c)) = Returns (Redirect i k)"
  shows "snd (image_pipeline pf req parsed c) = c(href parsed \<mapsto> \<lparr>img = i, ts = now_store req\<rparr>)"
proof -
  obtain t n r c' where r: "resolve_try pf req (href parsed) c = (t, n, r, c')"
    by (cases "resolve_try pf req (href parsed) c") auto
  then have "r = Some (Inr (Redirect i k))"
    using assms
    by (auto simp: image_pipeline_def returns_at_def imageFallbackResponse_def
          split: option.splits sum.splits if_splits)
  then show ?thesis using r resolve_try_returns [of pf req "href parsed" c t n i k c'] assms(1)
    by (simp add: image_pipeline_def)
qed

lemma image_pipeline_ignores_stale:
  assumes "cache_hit req c (href parsed) = None"
  shows "fst (image_pipeline pf req parsed c) = fst (image_pipeline pf req parsed (c(href parsed := None))) \<and>
    (snd (image_pipeline pf req parsed c) = c \<or>
     (\<exists>i. snd (image_pipeline pf req parsed c) = c(href parsed \<mapsto> \<lparr>img = i, ts = now_store req\<rparr>)))"
proof -
  have m: "cache_hit req (c(href parsed := None)) (href parsed) = None"
    by (simp add: cache_hit_def)
  obtain t n r where
    "(\<forall>c. resolve_try pf req (href parsed) c = (t, n, r, c)) \<or>
     (\<exists>i. r = Some (NextResponse_redirect pf i) \<and>
        (\<forall>c. resolve_try pf req (href parsed) c =
           (t, n, r, c(href parsed \<mapsto> \<lparr>img = i, ts = now_store req\<rparr>))))"
    using resolve_try_shape [of pf req "href parsed"] by (elim exE)
  then show ?thesis
  proof
    assume a: "\<forall>c. resolve_try pf req (href parsed) c = (t, n, r, c)"
    then have "resolve_try pf req (href parsed) c = (t, n, r, c)"
      and "resolve_try pf req (href parsed) (c(href parsed := None)) = (t, n, r, c(href parsed := None))"
      by blast+
    then show ?thesis using assms m
      by (simp add: image_pipeline_def split: option.splits sum.splits)
  next
    assume "\<exists>i. r = Some (NextResponse_redirect pf i) \<and>
        (\<forall>c. resolve_try pf req (href parsed) c =
           (t, n, r, c(href parsed \<mapsto> \<lparr>img = i, ts = now_store req\<rparr>)))"
    then obtain i where a: "\<forall>c. resolve_try pf req (href parsed) c =
           (t, n, r, c(href parsed \<mapsto> \<lparr>img = i, ts = now_store req\<rparr>))" by blast
    then have "resolve_try pf req (href parsed) c =
        (t, n, r, c(href parsed \<mapsto> \<lparr>img = i, ts = now_store req\<rparr>))"
      and "resolve_try pf req (href parsed) (c(href parsed := None)) =
        (t, n, r, (c(href parsed := None))(href parsed \<mapsto> \<lparr>img = i, ts = now_store req\<rparr>))"
      by blast+
    then show ?thesis using assms m
      by (auto simp: image_pipeline_def split: option.splits sum.splits)
  qed
qed

lemma image_pipeline_fetches:
  assumes "cache_hit req c (href parsed) = None" and "signal req \<noteq> Aborted"
  shows "1 \<le> fetch_calls (fst (image_pipeline pf req parsed c))"
proof -
  let ?l = "attempts req (href parsed) (case signal req of AbortsAt a \<Rightarrow> Some a | _ \<Rightarrow> None) 0 0"
  obtain t n x where l: "?l = (t, n, x)" by (cases ?l) auto
  then have n: "1 \<le> n"
    using attempts_calls_ge [of req "href parsed" "case signal req of AbortsAt a \<Rightarrow> Some a | _ \<Rightarrow> None" 0]
    by simp
  have "fst (snd (resolve_try pf req (href parsed) c)) = n"
    using assms(2) l by (cases x) (simp_all add: resolve_try_def split: option.splits)
  then show ?thesis using assms(1) n
    by (cases "resolve_try pf req (href parsed) c")
       (auto simp: image_pipeline_def returns_at_def split: option.splits sum.splits)
qed

text \<open>Where an exception can escape.\<close>

lemma GET_strict_never_escapes: "result (GET_strict pf req) \<noteq> Escapes e"
proof -
  have "result (strict_pipeline pf req parsed) \<noteq> Escapes e" for parsed
    using strict_pipeline_deadline [of pf req parsed] by auto
  then show ?thesis
    by (auto simp: GET_strict_def returns_at_def split: option.splits)
qed

lemma image_pipeline_miss_never_escapes:
  "cache_hit req c (href parsed) = None \<Longrightarrow> result (fst (image_pipeline pf req parsed c)) \<noteq> Escapes e"
  by (cases "resolve_try pf req (href parsed) c")
     (auto simp: image_pipeline_def returns_at_def split: option.splits sum.splits)

lemma GET_image_escapes_only_on_hit:
  assumes "result (fst (GET_image pf req c)) = Escapes e"
  shows "\<exists>parsed cached. accepted pf req parsed \<and> cache_hit req c (href parsed) = Some cached \<and>
    redirect_throws pf (img cached) = Some e"
proof -
  obtain parsed where a: "accepted pf req parsed"
    using assms by (auto simp: GET_image_def accepted_def returns_at_def split: option.splits if_splits)
  then have p: "result (fst (image_pipeline pf req parsed c)) = Escapes e"
    using assms GET_image_accepted by simp
  then obtain cached where h: "cache_hit req c (href parsed) = Some cached"
    using image_pipeline_miss_never_escapes by (cases "cache_hit req c (href parsed)") auto
  then have "redirect_throws pf (img cached) = Some e"
    using p by (auto simp: image_pipeline_def NextResponse_redirect_def returns_at_def split: option.splits)
  then show ?thesis using a h by blast
qed

lemma GET_image_cancelled_only_on_miss:
  assumes "result (fst (GET_image pf req c)) = Returns cancelled"
  shows "\<exists>parsed. accepted pf req parsed \<and> cache_hit req c (href parsed) = None"
proof -
  obtain parsed where a: "accepted pf req parsed"
    using assms
    by (auto simp: GET_image_def accepted_def returns_at_def cancelled_def imageFallbackResponse_def
          svgPlaceholder_def split: option.splits if_splits)
  then have p: "result (fst (image_pipeline pf req parsed c)) = Returns cancelled"
    using assms GET_image_accepted by simp
  have "cache_hit req c (href parsed) = None"
  proof (cases "cache_hit req c (href parsed)")
    case None
    then show ?thesis .
  next
    case (Some cached)
    then show ?thesis using p
      by (auto simp: image_pipeline_def NextResponse_redirect_def returns_at_def cancelled_def
            imageFallbackResponse_def split: option.splits)
  qed
  then show ?thesis using a by blast
qed

text \<open>
  The cache check, for every platform and every request that passes validation. A
  fresh entry: no fetch, the cache left as it is, and the answer is what
  \<^verbatim>\<open>NextResponse.redirect(cached.img, 302)\<close> gives, which is the redirect when the
  constructor takes the cached URL. An entry of 24h or more: the outcome is the one
  for a cache without the entry, and the entry stays or is overwritten. A miss that
  ends in the redirect to \<open>i\<close> has stored \<open>i\<close>.
\<close>

lemma fresh_entry_short_circuits:
  assumes "accepted pf req parsed"
  shows
    "(\<forall>e. c (href parsed) = Some e \<and> now_check req - ts e < CACHE_TTL_MS \<longrightarrow>
        fetch_calls (fst (GET_image pf req c)) = 0 \<and> snd (GET_image pf req c) = c \<and>
        (redirect_throws pf (img e) = None \<longrightarrow>
           fst (GET_image pf req c) = returns_at 0 0 (Redirect (img e) 302))) \<and>
     (\<forall>e. c (href parsed) = Some e \<and> CACHE_TTL_MS \<le> now_check req - ts e \<longrightarrow>
        fst (GET_image pf req c) = fst (GET_image pf req (c(href parsed := None))) \<and>
        (snd (GET_image pf req c) = c \<or>
         (\<exists>i. snd (GET_image pf req c) = c(href parsed \<mapsto> \<lparr>img = i, ts = now_store req\<rparr>))) \<and>
        (signal req \<noteq> Aborted \<longrightarrow> 1 \<le> fetch_calls (fst (GET_image pf req c)))) \<and>
     (\<forall>i k. cache_hit req c (href parsed) = None \<and>
        result (fst (GET_image pf req c)) = Returns (Redirect i k) \<longrightarrow>
        snd (GET_image pf req c) = c(href parsed \<mapsto> \<lparr>img = i, ts = now_store req\<rparr>)) \<and>
     CACHE_TTL_MS = 86400000"
proof (intro conjI allI impI)
  fix e
  assume h: "c (href parsed) = Some e \<and> now_check req - ts e < CACHE_TTL_MS"
  then have p: "GET_image pf req c =
      (case redirect_throws pf (img e) of
         None \<Rightarrow> (returns_at 0 0 (Redirect (img e) 302), c)
       | Some x \<Rightarrow> (\<lparr>result = Escapes x, finished_at = 0, fetch_calls = 0\<rparr>, c))"
    using image_pipeline_hit [of c parsed e req pf] GET_image_accepted [OF assms] by simp
  show "fetch_calls (fst (GET_image pf req c)) = 0"
    using p by (simp add: returns_at_def split: option.splits)
  show "snd (GET_image pf req c) = c"
    using p by (simp split: option.splits)
  assume "redirect_throws pf (img e) = None"
  then show "fst (GET_image pf req c) = returns_at 0 0 (Redirect (img e) 302)"
    using p by simp
next
  fix e
  assume h: "c (href parsed) = Some e \<and> CACHE_TTL_MS \<le> now_check req - ts e"
  then have m: "cache_hit req c (href parsed) = None"
    by (simp add: cache_hit_def)
  have g: "GET_image pf req c = image_pipeline pf req parsed c"
    "GET_image pf req (c(href parsed := None)) = image_pipeline pf req parsed (c(href parsed := None))"
    using GET_image_accepted [OF assms] by simp_all
  show "fst (GET_image pf req c) = fst (GET_image pf req (c(href parsed := None)))"
    using image_pipeline_ignores_stale [OF m, of pf] g by simp
  show "snd (GET_image pf req c) = c \<or>
      (\<exists>i. snd (GET_image pf req c) = c(href parsed \<mapsto> \<lparr>img = i, ts = now_store req\<rparr>))"
    using image_pipeline_ignores_stale [OF m, of pf] g by simp
  assume "signal req \<noteq> Aborted"
  then show "1 \<le> fetch_calls (fst (GET_image pf req c))"
    using image_pipeline_fetches [OF m, of pf] g by simp
next
  fix i k
  assume "cache_hit req c (href parsed) = None \<and>
      result (fst (GET_image pf req c)) = Returns (Redirect i k)"
  then show "snd (GET_image pf req c) = c(href parsed \<mapsto> \<lparr>img = i, ts = now_store req\<rparr>)"
    using image_pipeline_stored [of req c parsed pf i k] GET_image_accepted [OF assms, of c]
    by simp
next
  show "CACHE_TTL_MS = 86400000" by (simp add: CACHE_TTL_MS_def)
qed

text \<open>The cache check comes before the check of the inbound signal.\<close>

lemma lookup_before_abort_check:
  assumes "accepted pf req parsed" and "signal req = Aborted"
    and "c (href parsed) = Some e" and "now_check req - ts e < CACHE_TTL_MS"
  shows
    "result (fst (GET_image pf req c)) \<noteq> Returns cancelled \<and>
     fetch_calls (fst (GET_image pf req c)) = 0 \<and>
     (redirect_throws pf (img e) = None \<longrightarrow>
        GET_image pf req c = (returns_at 0 0 (Redirect (img e) 302), c)) \<and>
     (\<forall>req' c'. result (fst (GET_image pf req' c')) = Returns cancelled \<longrightarrow>
        (\<exists>p. accepted pf req' p \<and> cache_hit req' c' (href p) = None))"
proof -
  have p: "GET_image pf req c =
      (case redirect_throws pf (img e) of
         None \<Rightarrow> (returns_at 0 0 (Redirect (img e) 302), c)
       | Some x \<Rightarrow> (\<lparr>result = Escapes x, finished_at = 0, fetch_calls = 0\<rparr>, c))"
    using image_pipeline_hit [of c parsed e req pf] assms(3,4) GET_image_accepted [OF assms(1)]
    by simp
  show ?thesis
  proof (intro conjI allI impI)
    show "result (fst (GET_image pf req c)) \<noteq> Returns cancelled"
      using p
      by (simp add: returns_at_def cancelled_def imageFallbackResponse_def split: option.splits)
    show "fetch_calls (fst (GET_image pf req c)) = 0"
      using p by (simp add: returns_at_def split: option.splits)
  next
    assume "redirect_throws pf (img e) = None"
    then show "GET_image pf req c = (returns_at 0 0 (Redirect (img e) 302), c)"
      using p by simp
  next
    fix req' c'
    assume "result (fst (GET_image pf req' c')) = Returns cancelled"
    then show "\<exists>p. accepted pf req' p \<and> cache_hit req' c' (href p) = None"
      by (rule GET_image_cancelled_only_on_miss)
  qed
qed

section \<open>Facts about the sample requests\<close>

lemma accepted_sample: "accepted demo_platform (sample_request s f now) postimg_parsed"
  by (simp add: accepted_def sample_request_def demo_platform_def demo_new_URL_def
        postimg_parsed_def postimg_url_def)

lemma extract_one_og_tag: "extractOgImage one_og_tag = Some x_jpg"
  unfolding one_og_tag_def x_jpg_def by code_simp

lemma extract_relative_og_tag: "extractOgImage relative_og_tag = Some ''/x.png''"
  unfolding relative_og_tag_def by code_simp

lemma redirect_x_jpg: "redirect_throws demo_platform x_jpg = None"
  by (simp add: demo_platform_def demo_new_URL_def x_jpg_def)

lemma transient_not_abort_like: "\<not> isAbortLikeError transient"
  unfolding transient_def by code_simp

lemma x_jpg_nonempty: "x_jpg \<noteq> [] \<and> one_og_tag \<noteq> [] \<and> relative_og_tag \<noteq> []"
  by (simp add: x_jpg_def one_og_tag_def relative_og_tag_def)

lemmas run_defs =
  GET_strict_def strict_pipeline_def work_def work_try_def
  GET_image_def image_pipeline_def resolve_try_def attempts_first attempts_second attempt_try_def
  cache_hit_def NextResponse_redirect_def returns_at_def CACHE_TTL_MS_def
  sample_request_def quiet_request_def demo_platform_def demo_new_URL_def postimg_url_def
  postimg_parsed_def page_def flaky_def x_jpg_def
  extract_one_og_tag extract_relative_og_tag x_jpg_nonempty transient_not_abort_like
  isAbortLikeError_AbortError

lemma fresh_entry_short_circuits_example:
  "snd (GET_image demo_platform (sample_request NotAborted (\<lambda>n. page 40 one_og_tag) 0) Map.empty) =
     [postimg_url \<mapsto> \<lparr>img = x_jpg, ts = 1\<rparr>] \<and>
   GET_image demo_platform (sample_request NotAborted (\<lambda>n. Never) 86400000)
       [postimg_url \<mapsto> \<lparr>img = x_jpg, ts = 1\<rparr>] =
     (returns_at 0 0 (Redirect x_jpg 302), [postimg_url \<mapsto> \<lparr>img = x_jpg, ts = 1\<rparr>]) \<and>
   fst (GET_image demo_platform (sample_request NotAborted (\<lambda>n. page 40 one_og_tag) 86400001)
       [postimg_url \<mapsto> \<lparr>img = x_jpg, ts = 1\<rparr>]) =
     returns_at 45 1 (Redirect x_jpg 302)"
proof -
  let ?warm = "[postimg_url \<mapsto> \<lparr>img = x_jpg, ts = 1\<rparr>]"
  let ?hit = "sample_request NotAborted (\<lambda>n. Never) 86400000"
  let ?e = "\<lparr>img = x_jpg, ts = 1\<rparr>"
  have "\<forall>e. ?warm (href postimg_parsed) = Some e \<and> now_check ?hit - ts e < CACHE_TTL_MS \<longrightarrow>
      fetch_calls (fst (GET_image demo_platform ?hit ?warm)) = 0 \<and>
      snd (GET_image demo_platform ?hit ?warm) = ?warm \<and>
      (redirect_throws demo_platform (img e) = None \<longrightarrow>
         fst (GET_image demo_platform ?hit ?warm) = returns_at 0 0 (Redirect (img e) 302))"
    using fresh_entry_short_circuits
      [OF accepted_sample [of NotAborted "\<lambda>n. Never" 86400000], where c = ?warm]
    by (rule conjunct1)
  then have "?warm (href postimg_parsed) = Some ?e \<and> now_check ?hit - ts ?e < CACHE_TTL_MS \<longrightarrow>
      fetch_calls (fst (GET_image demo_platform ?hit ?warm)) = 0 \<and>
      snd (GET_image demo_platform ?hit ?warm) = ?warm \<and>
      (redirect_throws demo_platform (img ?e) = None \<longrightarrow>
         fst (GET_image demo_platform ?hit ?warm) = returns_at 0 0 (Redirect (img ?e) 302))"
    by (rule spec)
  moreover have "?warm (href postimg_parsed) = Some ?e \<and> now_check ?hit - ts ?e < CACHE_TTL_MS"
    by (simp add: postimg_parsed_def sample_request_def CACHE_TTL_MS_def)
  ultimately have "fetch_calls (fst (GET_image demo_platform ?hit ?warm)) = 0 \<and>
      snd (GET_image demo_platform ?hit ?warm) = ?warm \<and>
      (redirect_throws demo_platform (img ?e) = None \<longrightarrow>
         fst (GET_image demo_platform ?hit ?warm) = returns_at 0 0 (Redirect (img ?e) 302))"
    by (rule mp)
  then have "snd (GET_image demo_platform ?hit ?warm) = ?warm"
    and "fst (GET_image demo_platform ?hit ?warm) = returns_at 0 0 (Redirect x_jpg 302)"
    using redirect_x_jpg by simp_all
  then have hit: "GET_image demo_platform ?hit ?warm = (returns_at 0 0 (Redirect x_jpg 302), ?warm)"
    by (simp add: prod_eq_iff)
  have store: "snd (GET_image demo_platform
      (sample_request NotAborted (\<lambda>n. page 40 one_og_tag) 0) Map.empty) = ?warm"
    by (simp add: run_defs)
  have stale: "fst (GET_image demo_platform
      (sample_request NotAborted (\<lambda>n. page 40 one_og_tag) 86400001) ?warm) =
      returns_at 45 1 (Redirect x_jpg 302)"
    by (simp add: run_defs)
  show ?thesis using hit store stale by simp
qed

lemma lookup_before_abort_check_example:
  "GET_image demo_platform (sample_request Aborted (\<lambda>n. page 40 one_og_tag) 5000)
       [postimg_url \<mapsto> \<lparr>img = x_jpg, ts = 1\<rparr>] =
     (returns_at 0 0 (Redirect x_jpg 302), [postimg_url \<mapsto> \<lparr>img = x_jpg, ts = 1\<rparr>]) \<and>
   GET_image demo_platform (sample_request Aborted (\<lambda>n. page 40 one_og_tag) 5000) Map.empty =
     (returns_at 0 0 cancelled, Map.empty)"
proof -
  let ?req = "sample_request Aborted (\<lambda>n. page 40 one_og_tag) 5000"
  let ?c = "[postimg_url \<mapsto> \<lparr>img = x_jpg, ts = 1\<rparr>]"
  have "GET_image demo_platform ?req ?c = (returns_at 0 0 (Redirect (img \<lparr>img = x_jpg, ts = 1\<rparr>) 302), ?c)"
    using lookup_before_abort_check
      [OF accepted_sample [of Aborted "\<lambda>n. page 40 one_og_tag" 5000],
        where c = ?c and e = "\<lparr>img = x_jpg, ts = 1\<rparr>"]
    by (simp add: sample_request_def postimg_parsed_def CACHE_TTL_MS_def redirect_x_jpg)
  moreover have "GET_image demo_platform ?req Map.empty = (returns_at 0 0 cancelled, Map.empty)"
    by (simp add: run_defs cancelled_def)
  ultimately show ?thesis by simp
qed

section \<open>The claims\<close>

text \<open>
  C1 (amended). Only the always-an-image handler retries. There, for a request that
  passes validation and misses the cache, a first fetch that fails with an error that
  is no cancellation is followed, 150 ms later, by exactly one more fetch: when that
  one succeeds (its page has an og:image that the redirect constructor takes) the
  answer is the 302 redirect, two fetch calls made, at the time of the first failure
  plus 150 ms plus the time of the second attempt; when it fails again with an error
  that is no cancellation the answer is the "Preview unavailable" placeholder, two
  fetch calls made; no request makes more than two fetch calls. The strict handler
  makes one fetch: the same first failure, met before the 8 second timer, is answered
  at once with 500 \<^verbatim>\<open>{error: "Unexpected error fetching postimg"}\<close>. (In each case the
  inbound signal does not fire before the answer.)
\<close>

theorem retry_once_in_image_handler_only:
  assumes "accepted pf req parsed" and "\<not> isAbortLikeError ea"
    and "fetch_env req (href parsed) 0 = After da (Rejects ea)"
  shows
    "(cache_hit req c (href parsed) = None \<and>
      fetch_env req (href parsed) 1 = After db (Resolves (Upstream True (After dc (Resolves html)))) \<and>
      extractOgImage html = Some i \<and> redirect_throws pf i = None \<and>
      not_aborted_by req (da + 150 + db + dc) \<longrightarrow>
        GET_image pf req c =
          (returns_at (da + 150 + db + dc) 2 (Redirect i 302),
           c(href parsed \<mapsto> \<lparr>img = i, ts = now_store req\<rparr>))) \<and>
     (cache_hit req c (href parsed) = None \<and>
      fetch_env req (href parsed) 1 = After db (Rejects eb) \<and> \<not> isAbortLikeError eb \<and>
      not_aborted_by req (da + 150 + db) \<longrightarrow>
        GET_image pf req c = (returns_at (da + 150 + db) 2 unavailable, c)) \<and>
     fetch_calls (fst (GET_image pf req c)) \<le> 2 \<and>
     (da < 8000 \<and> not_aborted_by req da \<longrightarrow>
        GET_strict pf req = returns_at da 1 (Json ''Unexpected error fetching postimg'' 500))"
proof (intro conjI impI)
  assume "cache_hit req c (href parsed) = None \<and>
      fetch_env req (href parsed) 1 = After db (Resolves (Upstream True (After dc (Resolves html)))) \<and>
      extractOgImage html = Some i \<and> redirect_throws pf i = None \<and>
      not_aborted_by req (da + 150 + db + dc)"
  then show "GET_image pf req c =
      (returns_at (da + 150 + db + dc) 2 (Redirect i 302),
       c(href parsed \<mapsto> \<lparr>img = i, ts = now_store req\<rparr>))"
    using image_retry_success [OF assms(1) _ assms(2,3), where c = c and ?d1.0 = db and ?d2.0 = dc and html = html and i = i] by simp
next
  assume "cache_hit req c (href parsed) = None \<and>
      fetch_env req (href parsed) 1 = After db (Rejects eb) \<and> \<not> isAbortLikeError eb \<and>
      not_aborted_by req (da + 150 + db)"
  then show "GET_image pf req c = (returns_at (da + 150 + db) 2 unavailable, c)"
    using image_retry_failure [OF assms(1) _ assms(2,3), where c = c and ?d1.0 = db and ?e1.0 = eb] by simp
next
  show "fetch_calls (fst (GET_image pf req c)) \<le> 2" by (rule image_calls_le_2)
next
  assume "da < 8000 \<and> not_aborted_by req da"
  then show "GET_strict pf req = returns_at da 1 (Json ''Unexpected error fetching postimg'' 500)"
    using strict_single_attempt [OF assms] by simp
qed

theorem retry_once_in_image_handler_only_witness:
  "GET_image demo_platform (sample_request NotAborted flaky 0) Map.empty =
     (returns_at 225 2 (Redirect x_jpg 302), [postimg_url \<mapsto> \<lparr>img = x_jpg, ts = 1\<rparr>]) \<and>
   GET_image demo_platform (sample_request NotAborted (\<lambda>n. After 30 (Rejects transient)) 0) Map.empty =
     (returns_at 210 2 unavailable, Map.empty) \<and>
   GET_strict demo_platform (sample_request NotAborted (\<lambda>n. After 30 (Rejects transient)) 0) =
     returns_at 30 1 (Json ''Unexpected error fetching postimg'' 500)"
proof -
  have f0: "fetch_env (sample_request NotAborted flaky 0) (href postimg_parsed) 0 =
      After 30 (Rejects transient)"
    by (simp add: sample_request_def flaky_def)
  have g0: "fetch_env (sample_request NotAborted (\<lambda>n. After 30 (Rejects transient)) 0)
      (href postimg_parsed) 0 = After 30 (Rejects transient)"
    by (simp add: sample_request_def)
  have "GET_image demo_platform (sample_request NotAborted flaky 0) Map.empty =
      (returns_at (30 + 150 + 40 + 5) 2 (Redirect x_jpg 302),
       Map.empty(href postimg_parsed \<mapsto> \<lparr>img = x_jpg, ts = now_store (sample_request NotAborted flaky 0)\<rparr>))"
    using retry_once_in_image_handler_only
      [OF accepted_sample transient_not_abort_like f0,
        where c = Map.empty and db = 40 and dc = 5 and html = one_og_tag and i = x_jpg]
    by (simp add: sample_request_def flaky_def page_def cache_hit_def not_aborted_by_def
          extract_one_og_tag redirect_x_jpg postimg_parsed_def)
  moreover have "GET_image demo_platform
      (sample_request NotAborted (\<lambda>n. After 30 (Rejects transient)) 0) Map.empty =
      (returns_at (30 + 150 + 30) 2 unavailable, Map.empty)"
    using retry_once_in_image_handler_only
      [OF accepted_sample transient_not_abort_like g0,
        where c = Map.empty and db = 30 and eb = transient]
    by (simp add: sample_request_def cache_hit_def not_aborted_by_def transient_not_abort_like
          postimg_parsed_def)
  moreover have "GET_strict demo_platform
      (sample_request NotAborted (\<lambda>n. After 30 (Rejects transient)) 0) =
      returns_at 30 1 (Json ''Unexpected error fetching postimg'' 500)"
    using retry_once_in_image_handler_only
      [OF accepted_sample transient_not_abort_like g0, where c = Map.empty]
    by (simp add: sample_request_def not_aborted_by_def)
  ultimately show ?thesis
    by (simp add: sample_request_def postimg_parsed_def)
qed

theorem strict_handler_does_not_retry_counterexample:
  "fetch_env (sample_request NotAborted flaky 0) postimg_url 1 = page 40 one_og_tag \<and>
   GET_strict demo_platform (sample_request NotAborted flaky 0) =
     returns_at 30 1 (Json ''Unexpected error fetching postimg'' 500)"
  by (simp add: run_defs)

text \<open>
  C2 (amended). The strict handler runs its pipeline under a cancellation scope tied to
  the inbound abort signal and an 8 second timer: a request that passes validation is
  always answered, no later than the first of the two fires, and an answer given at
  that moment is the 204 response. The always-an-image handler has no timer; its scope
  is tied to the inbound signal alone: when that signal fires at time \<open>a\<close>, a request
  that missed the cache is answered either before \<open>a\<close> or with the "Image request
  cancelled" placeholder no later than \<open>a + 150\<close> (the retry delay is not interruptible).
  Without an inbound abort nothing bounds the time its fetch stays pending.
\<close>

theorem cancellation_scope:
  assumes "accepted pf req parsed"
  shows
    "(\<exists>r. result (GET_strict pf req) = Returns r) \<and>
     finished_at (GET_strict pf req) \<le> deadline req \<and>
     (finished_at (GET_strict pf req) = deadline req \<longrightarrow>
        result (GET_strict pf req) = Returns (Null 204)) \<and>
     (\<forall>a. cache_hit req c (href parsed) = None \<and> signal req = AbortsAt a \<longrightarrow>
        (\<exists>r. result (fst (GET_image pf req c)) = Returns r) \<and>
        (finished_at (fst (GET_image pf req c)) < a \<or>
         result (fst (GET_image pf req c)) = Returns cancelled \<and>
         finished_at (fst (GET_image pf req c)) \<le> a + 150))"
  using strict_pipeline_deadline [of pf req parsed] image_pipeline_aborting [of req c parsed _ pf]
    GET_strict_accepted [OF assms] GET_image_accepted [OF assms, of c]
  by simp

theorem cancellation_scope_witness:
  "GET_strict demo_platform (sample_request NotAborted (\<lambda>n. page 10000 one_og_tag) 0) =
     returns_at 8000 1 (Null 204) \<and>
   GET_strict demo_platform (sample_request (AbortsAt 3000) (\<lambda>n. page 10000 one_og_tag) 0) =
     returns_at 3000 1 (Null 204) \<and>
   fst (GET_image demo_platform (sample_request (AbortsAt 3000) (\<lambda>n. page 10000 one_og_tag) 0)
          Map.empty) =
     returns_at 3000 1 cancelled"
  using cancellation_scope
      [OF accepted_sample [of NotAborted "\<lambda>n. page 10000 one_og_tag" 0], where c = Map.empty]
    cancellation_scope
      [OF accepted_sample [of "AbortsAt 3000" "\<lambda>n. page 10000 one_og_tag" 0],
        where c = Map.empty]
  by (simp add: run_defs cancelled_def)

theorem image_handler_has_no_timer_counterexample:
  "fst (GET_image demo_platform (sample_request NotAborted (\<lambda>n. page 10000 one_og_tag) 0)
          Map.empty) =
     returns_at 10005 1 (Redirect x_jpg 302) \<and>
   result (fst (GET_image demo_platform (quiet_request (Some postimg_url)) Map.empty)) = Pending"
  by (simp add: run_defs)

text \<open>
  C3. When the \<^verbatim>\<open>url\<close> parses and its hostname is not exactly \<^verbatim>\<open>postimg.cc\<close>, the
  strict handler answers 400 with \<^verbatim>\<open>{error: "Only postimg.cc is allowed"}\<close> and the
  always-an-image handler answers the 200 placeholder labelled "Only postimg.cc is
  allowed"; no fetch is called and the cache is left as it was. A handler that calls
  fetch at all was given a \<^verbatim>\<open>url\<close> whose hostname equals the constant.
\<close>

theorem host_not_allowed_response:
  "(\<forall>u parsed. url_param req = Some u \<and> u \<noteq> [] \<and> new_URL pf u = Some parsed \<and>
       hostname parsed \<noteq> ''postimg.cc'' \<longrightarrow>
      GET_strict pf req = returns_at 0 0 (Json ''Only postimg.cc is allowed'' 400) \<and>
      fetch_calls (GET_strict pf req) = 0 \<and>
      GET_image pf req c =
        (returns_at 0 0 (imageFallbackResponse ''Only postimg.cc is allowed''), c) \<and>
      fetch_calls (fst (GET_image pf req c)) = 0) \<and>
   (0 < fetch_calls (GET_strict pf req) \<or> 0 < fetch_calls (fst (GET_image pf req c)) \<longrightarrow>
      (\<exists>u parsed. url_param req = Some u \<and> new_URL pf u = Some parsed \<and>
         hostname parsed = ''postimg.cc''))"
proof (intro conjI allI impI)
  fix u parsed
  assume h: "url_param req = Some u \<and> u \<noteq> [] \<and> new_URL pf u = Some parsed \<and>
    hostname parsed \<noteq> ''postimg.cc''"
  then show "GET_strict pf req = returns_at 0 0 (Json ''Only postimg.cc is allowed'' 400)"
    by (simp add: GET_strict_def)
  then show "fetch_calls (GET_strict pf req) = 0"
    by (simp add: returns_at_def)
  from h show g: "GET_image pf req c =
      (returns_at 0 0 (imageFallbackResponse ''Only postimg.cc is allowed''), c)"
    by (simp add: GET_image_def)
  then show "fetch_calls (fst (GET_image pf req c)) = 0"
    by (simp add: returns_at_def)
next
  assume "0 < fetch_calls (GET_strict pf req) \<or> 0 < fetch_calls (fst (GET_image pf req c))"
  then obtain parsed where "accepted pf req parsed"
    using GET_strict_calls_accepted GET_image_calls_accepted by blast
  then show "\<exists>u parsed. url_param req = Some u \<and> new_URL pf u = Some parsed \<and>
      hostname parsed = ''postimg.cc''"
    using accepted_url by blast
qed

theorem host_not_allowed_response_witness:
  "GET_strict demo_platform (quiet_request (Some ''https://evil.example.com/x'')) =
     returns_at 0 0 (Json ''Only postimg.cc is allowed'' 400) \<and>
   GET_image demo_platform (quiet_request (Some ''https://evil.example.com/x'')) Map.empty =
     (returns_at 0 0 (imageFallbackResponse ''Only postimg.cc is allowed''), Map.empty) \<and>
   GET_strict demo_platform (quiet_request (Some ''https://i.postimg.cc/x'')) =
     returns_at 0 0 (Json ''Only postimg.cc is allowed'' 400)"
  using host_not_allowed_response
      [of "quiet_request (Some ''https://evil.example.com/x'')" demo_platform Map.empty]
    host_not_allowed_response
      [of "quiet_request (Some ''https://i.postimg.cc/x'')" demo_platform Map.empty]
  by (simp add: quiet_request_def demo_platform_def demo_new_URL_def)

text \<open>
  C4 (amended). An og:image pattern with the content \<open>X\<close> is a piece of the markup of
  one of two shapes: \<^verbatim>\<open>property=\<close>, a quote, \<^verbatim>\<open>og:image\<close>, a quote, a gap, \<^verbatim>\<open>content=\<close>,
  a quote, \<open>X\<close>, a quote (the property first), or \<^verbatim>\<open>content=\<close>, a quote, \<open>X\<close>, a quote,
  a gap, \<^verbatim>\<open>property=\<close>, a quote, \<^verbatim>\<open>og:image\<close>, a quote (the content first). The letters
  are in any case; each quote is a single or a double one, whatever the others are,
  so that a value opened with a double quote may end at a single one; the gap is any
  run of characters, also none, without \<^verbatim>\<open>>\<close>; \<open>X\<close> is not empty and holds no quote of
  either kind; no \<^verbatim>\<open><meta\<close> and no end of the tag is asked for.
  \<^verbatim>\<open>extractOgImage\<close> returns null exactly when the markup holds no such pattern.
  Otherwise it returns the content of one pattern, and of this one: when some pattern
  has the property first, the one of them that starts leftmost and, of those that
  start there, has the longest gap; when none has, the pattern with the content first
  that starts leftmost. It returns nothing else.

  The claim as first stated, that the content of every such tag is returned, fails at
  the inputs of the counterexample below, one for each change made to it: two tags
  (the second content is not returned); a content with an apostrophe (cut at the
  apostrophe); an attribute holding \<^verbatim>\<open>>\<close> between the two, in either order (null); an
  empty content (null); two \<^verbatim>\<open>content=\<close> after one property (the last one, by the longest
  gap); a value closed by the other kind of quote (returned); a tag with the content
  first followed by a tag with the property first (the second one); two tags with the
  content first (the first one); the two attributes outside any tag (returned).
\<close>

theorem extractOgImage_returns_the_selected_pattern:
  "(extractOgImage html = Some X \<longleftrightarrow> og_image_selected html X) \<and>
   (extractOgImage html = None \<longleftrightarrow> (\<forall>X. \<not> og_image_pattern html X))"
proof (intro conjI iffI)
  assume "extractOgImage html = Some X"
  then show "og_image_selected html X" by (rule extractOgImage_selected)
next
  assume s: "og_image_selected html X"
  then have "og_image_pattern html X" by (rule og_image_selected_pattern)
  then obtain Y where y: "extractOgImage html = Some Y"
    using extractOgImage_complete by blast
  then have "og_image_selected html Y" by (rule extractOgImage_selected)
  then have "X = Y" using s og_image_selected_unique by blast
  then show "extractOgImage html = Some X" using y by simp
next
  assume n: "extractOgImage html = None"
  show "\<forall>X. \<not> og_image_pattern html X"
  proof (intro allI notI)
    fix X
    assume "og_image_pattern html X"
    then obtain Y where "extractOgImage html = Some Y"
      using extractOgImage_complete by blast
    then show False using n by simp
  qed
next
  assume none: "\<forall>X. \<not> og_image_pattern html X"
  show "extractOgImage html = None"
  proof (cases "extractOgImage html")
    case None
    then show ?thesis .
  next
    case (Some X)
    then have "og_image_pattern html X" by (rule extractOgImage_sound)
    with none show ?thesis by simp
  qed
qed

theorem extractOgImage_returns_the_selected_pattern_witness:
  "extractOgImage one_og_tag = Some x_jpg \<and>
   og_image_selected one_og_tag x_jpg \<and>
   extractOgImage ''<title>No preview</title>'' = None \<and>
   (\<forall>X. \<not> og_image_pattern ''<title>No preview</title>'' X)"
proof -
  have e0: "extractOgImage ''<title>No preview</title>'' = None"
    by code_simp
  have "og_image_selected one_og_tag x_jpg"
    using extractOgImage_returns_the_selected_pattern [of one_og_tag x_jpg] extract_one_og_tag
    by simp
  moreover have "\<forall>X. \<not> og_image_pattern ''<title>No preview</title>'' X"
    using extractOgImage_returns_the_selected_pattern [of "''<title>No preview</title>''"] e0
    by simp
  ultimately show ?thesis using extract_one_og_tag e0 by simp
qed

theorem claimed_contents_not_returned_counterexample:
  \<open>og_image_pattern two_og_tags ''B.jpg'' \<and>
   extractOgImage two_og_tags = Some ''A.jpg'' \<and>
   extractOgImage ''<meta property="og:image" content="https://i.postimg.cc/it's.png">'' =
     Some ''https://i.postimg.cc/it'' \<and>
   extractOgImage ''<meta property="og:image" data-x="a>b" content="https://i.postimg.cc/x.png">'' =
     None \<and>
   extractOgImage ''<meta property="og:image" content="">'' = None \<and>
   extractOgImage ''<meta property="og:image" content="A.jpg" data-content="B.jpg">'' =
     Some ''B.jpg'' \<and>
   extractOgImage ''<meta property="og:image" content="https://i.postimg.cc/x.png'>'' =
     Some ''https://i.postimg.cc/x.png'' \<and>
   extractOgImage ''<meta content="A.jpg" property="og:image"><meta property="og:image" content="B.jpg">'' =
     Some ''B.jpg'' \<and>
   extractOgImage ''<p>property="og:image" content="x.png"</p>'' = Some ''x.png'' \<and>
   extractOgImage ''<meta content="A.jpg" property="og:image"><meta content="B.jpg" property="og:image">'' =
     Some ''A.jpg'' \<and>
   extractOgImage ''<meta content="A.jpg" data-x="a>b" property="og:image">'' = None\<close>
proof -
  have \<open>two_og_tags =
      ''<meta property="og:image" content="A.jpg"><meta '' @ ''property='' @ [CHR 0x22] @
      ''og:image'' @ [CHR 0x22] @ '' '' @ ''content='' @ [CHR 0x22] @ ''B.jpg'' @ [CHR 0x22] @
      ''>''\<close>
    by (simp add: two_og_tags_def)
  then have \<open>property_first_at two_og_tags
      (length ''<meta property="og:image" content="A.jpg"><meta '') (length '' '') ''B.jpg''\<close>
    by (rule property_first_atI) (simp_all add: same_ignoring_case_def quote_def)
  then have 1: "og_image_pattern two_og_tags ''B.jpg''"
    unfolding og_image_pattern_def by blast
  have 2: "extractOgImage two_og_tags = Some ''A.jpg''"
    unfolding two_og_tags_def by code_simp
  have 3: \<open>extractOgImage ''<meta property="og:image" content="https://i.postimg.cc/it's.png">'' =
      Some ''https://i.postimg.cc/it''\<close>
    by code_simp
  have 4: \<open>extractOgImage
      ''<meta property="og:image" data-x="a>b" content="https://i.postimg.cc/x.png">'' = None\<close>
    by code_simp
  have 5: \<open>extractOgImage ''<meta property="og:image" content="">'' = None\<close>
    by code_simp
  have 6: \<open>extractOgImage ''<meta property="og:image" content="A.jpg" data-content="B.jpg">'' =
      Some ''B.jpg''\<close>
    by code_simp
  have 7: \<open>extractOgImage ''<meta property="og:image" content="https://i.postimg.cc/x.png'>'' =
      Some ''https://i.postimg.cc/x.png''\<close>
    by code_simp
  have 8: \<open>extractOgImage
      ''<meta content="A.jpg" property="og:image"><meta property="og:image" content="B.jpg">'' =
      Some ''B.jpg''\<close>
    by code_simp
  have 9: \<open>extractOgImage ''<p>property="og:image" content="x.png"</p>'' = Some ''x.png''\<close>
    by code_simp
  have 10: \<open>extractOgImage
      ''<meta content="A.jpg" property="og:image"><meta content="B.jpg" property="og:image">'' =
      Some ''A.jpg''\<close>
    by code_simp
  have 11: \<open>extractOgImage ''<meta content="A.jpg" data-x="a>b" property="og:image">'' = None\<close>
    by code_simp
  show ?thesis using 1 2 3 4 5 6 7 8 9 10 11 by (intro conjI)
qed

text \<open>
  C5. The claim is that a request whose URL has a cache entry younger than 24h is
  answered with the 302 redirect to the cached image URL, without a fetch. Whenever
  the redirect constructor takes the cached URL the handler does so, and the rest of
  the claim holds for every entry: an entry of 24h or more is ignored and not
  evicted, and a miss that ends in the redirect to \<open>i\<close> stores \<open>{img: i, ts: now}\<close>
  (\<open>fresh_entry_short_circuits\<close>). But the handler itself stores URLs that the
  constructor refuses, since line 115 writes the cache before line 116 builds the
  redirect. At the input below a first request meets a page whose og:image is the
  relative URL \<^verbatim>\<open>/x.png\<close> and leaves it in the cache. A second request for the same
  URL, an hour later, whose upstream page now carries an absolute image URL, finds the
  entry, one hour old, calls no fetch, and is answered with no redirect and with no
  response at all: the redirect of line 78 throws. It is the defect of C8, met by a
  fresh cache entry.
\<close>

theorem fresh_cache_entry_without_redirect:
  "snd (GET_image demo_platform
          (sample_request NotAborted (\<lambda>n. page 40 relative_og_tag) 0) Map.empty) =
     [postimg_url \<mapsto> \<lparr>img = ''/x.png'', ts = 1\<rparr>] \<and>
   3600000 - ts \<lparr>img = ''/x.png'', ts = 1\<rparr> < CACHE_TTL_MS \<and>
   GET_image demo_platform (sample_request NotAborted (\<lambda>n. page 40 one_og_tag) 3600000)
       [postimg_url \<mapsto> \<lparr>img = ''/x.png'', ts = 1\<rparr>] =
     (\<lparr>result = Escapes (malformed ''/x.png''), finished_at = 0, fetch_calls = 0\<rparr>,
      [postimg_url \<mapsto> \<lparr>img = ''/x.png'', ts = 1\<rparr>])"
  by (simp add: run_defs unavailable_def malformed_def mentions_aborted_def via_cause_def
        toLowerCase_def toLowerCase_char_def)

text \<open>
  C6. A request without \<^verbatim>\<open>url\<close> gets the missing-input response, and one whose
  \<^verbatim>\<open>url\<close> the parser refuses gets the invalid-input response (the missing-input one
  when the parameter is the empty string): 400 with \<^verbatim>\<open>{error: "Missing url"}\<close> or
  \<^verbatim>\<open>{error: "Invalid url"}\<close> in the strict handler, the 200 placeholder labelled
  "Missing image url" or "Invalid image url" in the always-an-image handler. Either
  way no fetch is called and the cache is left as it was.
\<close>

theorem invalid_input_response:
  "(url_param req = None \<longrightarrow>
      GET_strict pf req = returns_at 0 0 (Json ''Missing url'' 400) \<and>
      GET_image pf req c = (returns_at 0 0 (imageFallbackResponse ''Missing image url''), c)) \<and>
   (\<forall>u. url_param req = Some u \<and> new_URL pf u = None \<longrightarrow>
      GET_strict pf req =
        returns_at 0 0 (Json (if u = [] then ''Missing url'' else ''Invalid url'') 400) \<and>
      GET_image pf req c =
        (returns_at 0 0
           (imageFallbackResponse (if u = [] then ''Missing image url'' else ''Invalid image url'')),
         c)) \<and>
   (url_param req = None \<or> (\<exists>u. url_param req = Some u \<and> new_URL pf u = None) \<longrightarrow>
      fetch_calls (GET_strict pf req) = 0 \<and> fetch_calls (fst (GET_image pf req c)) = 0)"
  by (auto simp: GET_strict_def GET_image_def returns_at_def)

theorem invalid_input_response_witness:
  "GET_strict demo_platform (quiet_request (Some ''postimg.cc/abc123'')) =
     returns_at 0 0 (Json ''Invalid url'' 400) \<and>
   GET_image demo_platform (quiet_request (Some ''postimg.cc/abc123'')) Map.empty =
     (returns_at 0 0 (imageFallbackResponse ''Invalid image url''), Map.empty) \<and>
   GET_strict demo_platform (quiet_request None) = returns_at 0 0 (Json ''Missing url'' 400) \<and>
   GET_image demo_platform (quiet_request None) Map.empty =
     (returns_at 0 0 (imageFallbackResponse ''Missing image url''), Map.empty)"
  using invalid_input_response [of "quiet_request (Some ''postimg.cc/abc123'')" demo_platform Map.empty]
    invalid_input_response [of "quiet_request None" demo_platform Map.empty]
  by (simp add: quiet_request_def demo_platform_def demo_new_URL_def)

text \<open>
  C7. In both handlers, for a request that passes validation, an error that
  \<^verbatim>\<open>isAbortLikeError\<close> classifies as a cancellation gets the cancellation response (204
  in the strict handler; the "Image request cancelled" placeholder, which is not the
  "Preview unavailable" one, in the always-an-image handler on a cache miss) wherever
  the pipeline can meet it: thrown by the first fetch or its body read, with no
  further fetch; thrown by the second fetch or its body read after a failed first
  attempt; thrown by the redirect constructor. The abort-style name, the two codes,
  and each of them inside a wrapped cause are classified so.
\<close>

theorem cancellation_takes_priority:
  assumes "accepted pf req parsed" and "isAbortLikeError e"
  shows
    "(fetch_env req (href parsed) 0 = After d (Rejects e) \<or>
      fetch_env req (href parsed) 0 = After d (Resolves (Upstream True (After d' (Rejects e)))) \<longrightarrow>
        result (GET_strict pf req) = Returns (Null 204) \<and>
        fetch_calls (GET_strict pf req) \<le> 1 \<and>
        (cache_hit req c (href parsed) = None \<longrightarrow>
           result (fst (GET_image pf req c)) = Returns cancelled \<and>
           fetch_calls (fst (GET_image pf req c)) \<le> 1)) \<and>
     ((fetch_env req (href parsed) 0 = After d0 (Rejects e0) \<or>
       fetch_env req (href parsed) 0 = After d0 (Resolves (Upstream True (After d0' (Rejects e0))))) \<and>
      (fetch_env req (href parsed) 1 = After d (Rejects e) \<or>
       fetch_env req (href parsed) 1 = After d (Resolves (Upstream True (After d' (Rejects e))))) \<and>
      cache_hit req c (href parsed) = None \<longrightarrow>
        result (fst (GET_image pf req c)) = Returns cancelled \<and>
        fetch_calls (fst (GET_image pf req c)) \<le> 2) \<and>
     (fetch_env req (href parsed) 0 = After d (Resolves (Upstream True (After d' (Resolves html)))) \<and>
      extractOgImage html = Some i \<and> redirect_throws pf i = Some e \<longrightarrow>
        result (GET_strict pf req) = Returns (Null 204) \<and>
        (cache_hit req c (href parsed) = None \<longrightarrow>
           result (fst (GET_image pf req c)) = Returns cancelled)) \<and>
     cancelled \<noteq> unavailable \<and>
     isAbortLikeError (Err (Some ''AbortError'') m k cs) \<and>
     isAbortLikeError (Err n m (Some ''ECONNRESET'') cs) \<and>
     isAbortLikeError (Err n m (Some ''UND_ERR_ABORTED'') cs) \<and>
     isAbortLikeError (Err n m k (Some (Cause (Some ''ECONNRESET'') cn cm))) \<and>
     isAbortLikeError (Err n m k (Some (Cause (Some ''UND_ERR_ABORTED'') cn cm))) \<and>
     isAbortLikeError (Err n m k (Some (Cause cc (Some ''AbortError'') cm)))"
proof (intro conjI impI)
  assume h: "fetch_env req (href parsed) 0 = After d (Rejects e) \<or>
      fetch_env req (href parsed) 0 = After d (Resolves (Upstream True (After d' (Rejects e))))"
  show "result (GET_strict pf req) = Returns (Null 204)"
    and "fetch_calls (GET_strict pf req) \<le> 1"
    using strict_abort_like [OF assms h] by simp_all
  assume m: "cache_hit req c (href parsed) = None"
  show "result (fst (GET_image pf req c)) = Returns cancelled"
    and "fetch_calls (fst (GET_image pf req c)) \<le> 1"
    using image_first_abort_like [OF assms(1) m assms(2) h] by simp_all
next
  assume h: "(fetch_env req (href parsed) 0 = After d0 (Rejects e0) \<or>
       fetch_env req (href parsed) 0 = After d0 (Resolves (Upstream True (After d0' (Rejects e0))))) \<and>
      (fetch_env req (href parsed) 1 = After d (Rejects e) \<or>
       fetch_env req (href parsed) 1 = After d (Resolves (Upstream True (After d' (Rejects e))))) \<and>
      cache_hit req c (href parsed) = None"
  then have "result (fst (GET_image pf req c)) = Returns cancelled \<and>
      fetch_calls (fst (GET_image pf req c)) \<le> 2 \<and> snd (GET_image pf req c) = c"
    using image_second_abort_like [OF assms(1) _ _ assms(2), where c = c and ?d0.0 = d0 and ?e0.0 = e0 and d0' = d0' and d = d and d' = d'] by simp
  then show "result (fst (GET_image pf req c)) = Returns cancelled"
    and "fetch_calls (fst (GET_image pf req c)) \<le> 2" by simp_all
next
  assume h: "fetch_env req (href parsed) 0 =
        After d (Resolves (Upstream True (After d' (Resolves html)))) \<and>
      extractOgImage html = Some i \<and> redirect_throws pf i = Some e"
  then show "result (GET_strict pf req) = Returns (Null 204)"
    using strict_redirect_abort_like [OF assms] by blast
  assume m: "cache_hit req c (href parsed) = None"
  show "result (fst (GET_image pf req c)) = Returns cancelled"
    using image_redirect_abort_like [OF assms(1) m assms(2)] h by blast
next
  show "cancelled \<noteq> unavailable" by (rule cancelled_neq_unavailable)
qed (simp_all add: via_cause_def)

theorem cancellation_takes_priority_witness:
  "isAbortLikeError (Err None None (Some ''ECONNRESET'') None) \<and>
   result (GET_strict demo_platform
     (sample_request NotAborted (\<lambda>n. After 20 (Rejects (Err None None (Some ''ECONNRESET'') None))) 0)) =
     Returns (Null 204) \<and>
   GET_image demo_platform
     (sample_request NotAborted (\<lambda>n. After 20 (Rejects (Err None None (Some ''ECONNRESET'') None))) 0)
     Map.empty =
     (returns_at 20 1 cancelled, Map.empty)"
proof -
  let ?e = "Err None None (Some ''ECONNRESET'') None"
  let ?req = "sample_request NotAborted (\<lambda>n. After 20 (Rejects ?e)) 0"
  have e: "isAbortLikeError ?e" by simp
  have f: "fetch_env ?req (href postimg_parsed) 0 = After 20 (Rejects ?e)"
    by (simp add: sample_request_def)
  have m: "cache_hit ?req Map.empty (href postimg_parsed) = None"
    by (simp add: cache_hit_def)
  have "result (GET_strict demo_platform ?req) = Returns (Null 204) \<and>
      result (fst (GET_image demo_platform ?req Map.empty)) = Returns cancelled"
    using cancellation_takes_priority
      [OF accepted_sample [of NotAborted "\<lambda>n. After 20 (Rejects ?e)" 0] e,
        where d = 20 and c = Map.empty] f m
    by simp
  moreover have "GET_image demo_platform ?req Map.empty = (returns_at 20 1 cancelled, Map.empty)"
    by (simp add: run_defs cancelled_def)
  ultimately show ?thesis using e by simp
qed

text \<open>
  C8. The claim is that no exception escapes either handler. The strict handler keeps
  it (\<open>GET_strict_never_escapes\<close>), and the always-an-image handler keeps it
  everywhere but on a cache hit (\<open>GET_image_escapes_only_on_hit\<close>); at the input below
  it breaks it. A first request meets a page whose og:image is the relative URL
  \<^verbatim>\<open>/x.png\<close>: line 115 stores it in the cache, the redirect of line 116 throws
  inside the \<^verbatim>\<open>try\<close>, and the answer is the "Preview unavailable" placeholder. A
  second request for the same URL, a minute later, hits the cache, and the redirect
  of line 78, built outside the \<^verbatim>\<open>try\<close>, throws: the exception escapes the
  handler.
\<close>

theorem cached_relative_url_escapes:
  "GET_image demo_platform (sample_request NotAborted (\<lambda>n. page 40 relative_og_tag) 0) Map.empty =
     (returns_at 45 1 unavailable, [postimg_url \<mapsto> \<lparr>img = ''/x.png'', ts = 1\<rparr>]) \<and>
   GET_image demo_platform (sample_request NotAborted (\<lambda>n. page 40 relative_og_tag) 60000)
       [postimg_url \<mapsto> \<lparr>img = ''/x.png'', ts = 1\<rparr>] =
     (\<lparr>result = Escapes (malformed ''/x.png''), finished_at = 0, fetch_calls = 0\<rparr>,
      [postimg_url \<mapsto> \<lparr>img = ''/x.png'', ts = 1\<rparr>])"
  by (simp add: run_defs unavailable_def malformed_def mentions_aborted_def via_cause_def
        toLowerCase_def toLowerCase_char_def)

text \<open>
  C9. An error whose \<^verbatim>\<open>message\<close>, or whose \<^verbatim>\<open>cause.message\<close>, contains the word
  "aborted" in any letter case is classified as a cancellation by
  \<^verbatim>\<open>isAbortLikeError\<close>, whatever its other fields; so when the first fetch of a request
  that passes validation, or its body read, fails with such an error, the strict
  handler answers 204 and the always-an-image handler (on a cache miss) answers the
  "Image request cancelled" placeholder.
\<close>

theorem aborted_in_message_is_cancellation:
  assumes "in_any_case w ''aborted''"
    and "e = Err n (Some (pre @ w @ post)) k cs \<or>
         e = Err n m k (Some (Cause cc cn (Some (pre @ w @ post))))"
  shows
    "isAbortLikeError e \<and>
     (accepted pf req parsed \<and>
      (fetch_env req (href parsed) 0 = After d (Rejects e) \<or>
       fetch_env req (href parsed) 0 = After d (Resolves (Upstream True (After d' (Rejects e))))) \<longrightarrow>
        result (GET_strict pf req) = Returns (Null 204) \<and>
        (cache_hit req c (href parsed) = None \<longrightarrow>
           result (fst (GET_image pf req c)) = Returns cancelled))"
proof -
  have a: "isAbortLikeError e"
    using assms(2) mentions_aborted_any_case [OF assms(1), of pre post]
    by (auto simp: via_cause_def)
  show ?thesis
  proof (intro conjI impI)
    show "isAbortLikeError e" by (rule a)
  next
    assume h: "accepted pf req parsed \<and>
      (fetch_env req (href parsed) 0 = After d (Rejects e) \<or>
       fetch_env req (href parsed) 0 = After d (Resolves (Upstream True (After d' (Rejects e)))))"
    then show "result (GET_strict pf req) = Returns (Null 204)"
      using strict_abort_like [of pf req parsed e d d'] a by blast
    assume "cache_hit req c (href parsed) = None"
    then show "result (fst (GET_image pf req c)) = Returns cancelled"
      using image_first_abort_like [of pf req parsed c e d d'] a h by blast
  qed
qed

theorem aborted_in_message_is_cancellation_witness:
  "isAbortLikeError (Err (Some ''SyntaxError'') (Some ''Parser Aborted: bad markup'') None None) \<and>
   result (GET_strict demo_platform
     (sample_request NotAborted
        (\<lambda>n. After 20 (Rejects (Err (Some ''SyntaxError'') (Some ''Parser Aborted: bad markup'') None None)))
        0)) =
     Returns (Null 204) \<and>
   result (fst (GET_image demo_platform
     (sample_request NotAborted
        (\<lambda>n. After 20 (Rejects (Err (Some ''SyntaxError'') (Some ''Parser Aborted: bad markup'') None None)))
        0) Map.empty)) =
     Returns cancelled"
proof -
  let ?e = "Err (Some ''SyntaxError'') (Some ''Parser Aborted: bad markup'') None None"
  let ?req = "sample_request NotAborted (\<lambda>n. After 20 (Rejects ?e)) 0"
  have w: "in_any_case ''Aborted'' ''aborted''"
    by (simp add: in_any_case_def capital_of_def)
  have s: "?e = Err (Some ''SyntaxError'') (Some (''Parser '' @ ''Aborted'' @ '': bad markup'')) None None
      \<or> ?e = Err (Some ''SyntaxError'') None None
           (Some (Cause None None (Some (''Parser '' @ ''Aborted'' @ '': bad markup''))))"
    by simp
  have f: "fetch_env ?req (href postimg_parsed) 0 = After 20 (Rejects ?e)"
    by (simp add: sample_request_def)
  have m: "cache_hit ?req Map.empty (href postimg_parsed) = None"
    by (simp add: cache_hit_def)
  show ?thesis
    using aborted_in_message_is_cancellation
      [OF w s, where pf = demo_platform and req = ?req and parsed = postimg_parsed and d = 20
          and c = Map.empty]
      accepted_sample [of NotAborted "\<lambda>n. After 20 (Rejects ?e)" 0] f m
    by simp
qed

text \<open>
  C10. The claim is that a request that arrives with its signal already aborted,
  while the cache holds an entry for its URL younger than 24h, is answered with the
  302 redirect to the cached image URL. The order is as the claim says: the cache
  lookup of line 76 comes before the check of the signal of line 83, such a request
  calls no fetch and is never answered with the "Image request cancelled"
  placeholder, which is only produced on a cache miss, and it is answered with the
  redirect whenever the redirect constructor takes the cached URL
  (\<open>lookup_before_abort_check\<close>). But the handler itself stores URLs that the
  constructor refuses. At the input below the cache holds the entry \<^verbatim>\<open>/x.png\<close> that
  a first request has left there, and a request that arrives aborted five seconds
  later is answered neither with the redirect nor with the placeholder: the redirect
  of line 78 throws. It is the defect of C8, met by an aborted request.
\<close>

theorem aborted_request_on_fresh_entry_without_redirect:
  "snd (GET_image demo_platform
          (sample_request NotAborted (\<lambda>n. page 40 relative_og_tag) 0) Map.empty) =
     [postimg_url \<mapsto> \<lparr>img = ''/x.png'', ts = 1\<rparr>] \<and>
   5000 - ts \<lparr>img = ''/x.png'', ts = 1\<rparr> < CACHE_TTL_MS \<and>
   GET_image demo_platform (sample_request Aborted (\<lambda>n. page 40 relative_og_tag) 5000)
       [postimg_url \<mapsto> \<lparr>img = ''/x.png'', ts = 1\<rparr>] =
     (\<lparr>result = Escapes (malformed ''/x.png''), finished_at = 0, fetch_calls = 0\<rparr>,
      [postimg_url \<mapsto> \<lparr>img = ''/x.png'', ts = 1\<rparr>]) \<and>
   GET_image demo_platform (sample_request Aborted (\<lambda>n. page 40 relative_og_tag) 5000) Map.empty =
     (returns_at 0 0 cancelled, Map.empty)"
  by (simp add: run_defs unavailable_def cancelled_def malformed_def mentions_aborted_def
        via_cause_def toLowerCase_def toLowerCase_char_def)

end
